theory Spec2Isabelle
  imports Complex_Main "HOL-Library.Multiset"
begin

section \<open>The vertex queue of \<open>voronoidiagram.hpp\<close>\<close>

text \<open>
  \<^verbatim>\<open>typedef std::pair<HEVertex, double> VertexDetPair;\<close>

  \<open>HEVertex\<close> is a vertex descriptor of the half-edge graph (declared in
  \<open>voronoidiagram_graph.hpp\<close>); only its identity matters, so it is a number here. The
  \<open>double\<close> is the value of the in-circle predicate. The queue only applies \<open>fabs\<close> and
  \<open><\<close> to it, which on every double that is not a NaN agree with \<open>abs\<close> and \<open><\<close> of the
  real number it denotes, so the determinant is a \<open>real\<close>; NaN is outside the model.
\<close>

type_synonym HEVertex = nat
type_synonym HEFace = nat
type_synonym VertexDetPair = "HEVertex \<times> real"

text \<open>
  \<^verbatim>\<open>bool operator() (const VertexDetPair& lhs, const VertexDetPair&rhs) const {
    return ( fabs(lhs.second) < fabs(rhs.second) );
  }\<close>
\<close>

definition abs_comparison :: "VertexDetPair \<Rightarrow> VertexDetPair \<Rightarrow> bool" where
  "abs_comparison lhs rhs = (\<bar>snd lhs\<bar> < \<bar>snd rhs\<bar>)"

text \<open>
  \<^verbatim>\<open>typedef std::priority_queue< VertexDetPair , std::vector<VertexDetPair>, abs_comparison > VertexQueue;\<close>

  \<open>std::priority_queue\<close> is the container adaptor of the C++ standard library: the
  underlying \<open>std::vector\<close> kept as a binary max-heap under the comparison.
  \<open>push(x)\<close> is \<open>c.push_back(x); std::push_heap(c.begin(), c.end(), comp)\<close>,
  \<open>top()\<close> is \<open>c.front()\<close> and \<open>pop()\<close> is
  \<open>std::pop_heap(c.begin(), c.end(), comp); c.pop_back()\<close>. The heap algorithms are
  those of libstdc++ (\<open>bits/stl_heap.h\<close>): \<open>__push_heap\<close> moves a hole up,
  \<open>__adjust_heap\<close> moves a hole down to a leaf along the larger children and then
  pushes the value up from there. The C++ standard asks of \<open>top\<close> only an element
  that no other element exceeds under the comparison; which of several such elements
  it is, the standard leaves to the library.
\<close>

type_synonym VertexQueue = "VertexDetPair list"

text \<open>
  \<^verbatim>\<open>_Distance __parent = (__holeIndex - 1) / 2;
  while (__holeIndex > __topIndex && __comp(__first + __parent, __value)) {
      *(__first + __holeIndex) = *(__first + __parent);
      __holeIndex = __parent;
      __parent = (__holeIndex - 1) / 2;
  }
  *(__first + __holeIndex) = __value;\<close>
\<close>

function push_heap_loop ::
  "('a \<Rightarrow> 'a \<Rightarrow> bool) \<Rightarrow> 'a list \<Rightarrow> nat \<Rightarrow> nat \<Rightarrow> 'a \<Rightarrow> 'a list" where
  "push_heap_loop cmp first holeIndex topIndex val =
     (let parent = (holeIndex - 1) div 2 in
      if holeIndex > topIndex \<and> cmp (first ! parent) val
      then push_heap_loop cmp (first[holeIndex := first ! parent]) parent topIndex val
      else first[holeIndex := val])"
  by pat_completeness auto
termination
  by (relation "measure (\<lambda>(cmp, first, holeIndex, topIndex, val). holeIndex)") auto

declare push_heap_loop.simps [simp del]

text \<open>
  \<open>std::push_heap\<close>: the last element of the range is the value to insert, the hole
  starts at its place and the top is index 0.
\<close>

definition push_heap :: "('a \<Rightarrow> 'a \<Rightarrow> bool) \<Rightarrow> 'a list \<Rightarrow> 'a list" where
  "push_heap cmp c =
     (if c = [] then c
      else push_heap_loop cmp c (length c - 1) 0 (c ! (length c - 1)))"

text \<open>
  The loop of \<open>__adjust_heap\<close>:
  \<^verbatim>\<open>while (__secondChild < (__len - 1) / 2) {
      __secondChild = 2 * (__secondChild + 1);
      if (__comp(__first + __secondChild, __first + (__secondChild - 1)))
          __secondChild--;
      *(__first + __holeIndex) = *(__first + __secondChild);
      __holeIndex = __secondChild;
  }\<close>
\<close>

function adjust_heap_loop ::
  "('a \<Rightarrow> 'a \<Rightarrow> bool) \<Rightarrow> 'a list \<Rightarrow> nat \<Rightarrow> nat \<Rightarrow> nat \<Rightarrow> 'a list \<times> nat \<times> nat" where
  "adjust_heap_loop cmp first holeIndex secondChild len =
     (if secondChild < (len - 1) div 2
      then (let sc = 2 * (secondChild + 1);
                sc' = (if cmp (first ! sc) (first ! (sc - 1)) then sc - 1 else sc)
            in adjust_heap_loop cmp (first[holeIndex := first ! sc']) sc' sc' len)
      else (first, holeIndex, secondChild))"
  by pat_completeness auto
termination
  by (relation "measure (\<lambda>(cmp, first, holeIndex, secondChild, len). len - secondChild)")
     (auto simp: Let_def)

declare adjust_heap_loop.simps [simp del]

text \<open>
  \<open>__adjust_heap\<close>: after the loop, a last node with a single (left) child is handled,
  then the value is pushed up from the hole:
  \<^verbatim>\<open>if ((__len & 1) == 0 && __secondChild == (__len - 2) / 2) {
      __secondChild = 2 * (__secondChild + 1);
      *(__first + __holeIndex) = *(__first + (__secondChild - 1));
      __holeIndex = __secondChild - 1;
  }
  std::__push_heap(__first, __holeIndex, __topIndex, __value, __comp);\<close>
  The indices are signed in C++: for \<open>__len < 2\<close> the quotient \<open>(__len - 2) / 2\<close> is
  not the index of a node (it is \<open>-1\<close> or, at \<open>__len = 1\<close>, the test on the parity
  fails), which the guard \<open>2 \<le> len\<close> says on natural numbers.
\<close>

definition adjust_heap ::
  "('a \<Rightarrow> 'a \<Rightarrow> bool) \<Rightarrow> 'a list \<Rightarrow> nat \<Rightarrow> nat \<Rightarrow> 'a \<Rightarrow> 'a list" where
  "adjust_heap cmp first holeIndex len val =
     (let topIndex = holeIndex;
          (first1, hole1, sc1) = adjust_heap_loop cmp first holeIndex holeIndex len;
          (first2, hole2) =
             (if len mod 2 = 0 \<and> 2 \<le> len \<and> sc1 = (len - 2) div 2
              then (first1[hole1 := first1 ! (2 * (sc1 + 1) - 1)], 2 * (sc1 + 1) - 1)
              else (first1, hole1))
      in push_heap_loop cmp first2 hole2 topIndex val)"

text \<open>
  \<open>std::pop_heap\<close>: on a range of more than one element, the last element is saved, the
  first is moved into the last place, and the saved value is sifted into the range
  without its last place:
  \<^verbatim>\<open>if (__last - __first > 1) { --__last;
      _ValueType __value = *__last;  *__last = *__first;
      std::__adjust_heap(__first, 0, __last - __first, __value, __comp); }\<close>
\<close>

definition pop_heap :: "('a \<Rightarrow> 'a \<Rightarrow> bool) \<Rightarrow> 'a list \<Rightarrow> 'a list" where
  "pop_heap cmp c =
     (if length c > 1
      then (let lst = length c - 1
            in adjust_heap cmp (c[lst := c ! 0]) 0 lst (c ! lst))
      else c)"

text \<open>The three operations of the queue. \<open>top\<close> of an empty queue has no value.\<close>

definition vq_push :: "VertexDetPair \<Rightarrow> VertexQueue \<Rightarrow> VertexQueue" where
  "vq_push x c = push_heap abs_comparison (c @ [x])"

definition vq_top :: "VertexQueue \<Rightarrow> VertexDetPair option" where
  "vq_top c = (case c of [] \<Rightarrow> None | x # _ \<Rightarrow> Some x)"

definition vq_pop :: "VertexQueue \<Rightarrow> VertexQueue" where
  "vq_pop c = butlast (pop_heap abs_comparison c)"

text \<open>
  A history of the queue: \<open>push\<close> and \<open>pop\<close> calls applied to the empty queue of a
  fresh diagram. \<open>pop\<close> on an empty queue is undefined behaviour in C++
  (\<open>pop_back\<close> of an empty vector): such a history has no result.
\<close>

datatype vq_op = Push VertexDetPair | Pop

fun vq_run_from :: "VertexQueue \<Rightarrow> vq_op list \<Rightarrow> VertexQueue option" where
  "vq_run_from q [] = Some q"
| "vq_run_from q (Push x # ops) = vq_run_from (vq_push x q) ops"
| "vq_run_from q (Pop # ops) = (if q = [] then None else vq_run_from (vq_pop q) ops)"

definition vq_run :: "vq_op list \<Rightarrow> VertexQueue option" where
  "vq_run ops = vq_run_from [] ops"

text \<open>The key under which \<open>abs_comparison\<close> orders the pairs.\<close>

definition det_key :: "VertexDetPair \<Rightarrow> real" where
  "det_key p = \<bar>snd p\<bar>"

text \<open>
  The queue as the specification words it: the waiting pairs are kept in the order of
  their insertion, and a pop delivers the first pair of maximal \<open>|det|\<close>, that is, of
  the pairs of largest \<open>|det|\<close> the one inserted earliest.
\<close>

definition stable_top :: "VertexDetPair list \<Rightarrow> VertexDetPair option" where
  "stable_top waiting = find (\<lambda>p. \<forall>r\<in>set waiting. \<bar>snd r\<bar> \<le> \<bar>snd p\<bar>) waiting"

fun stable_run_from :: "VertexDetPair list \<Rightarrow> vq_op list \<Rightarrow> VertexDetPair list option" where
  "stable_run_from w [] = Some w"
| "stable_run_from w (Push x # ops) = stable_run_from (w @ [x]) ops"
| "stable_run_from w (Pop # ops) =
     (case stable_top w of None \<Rightarrow> None | Some p \<Rightarrow> stable_run_from (remove1 p w) ops)"

definition stable_run :: "vq_op list \<Rightarrow> VertexDetPair list option" where
  "stable_run ops = stable_run_from [] ops"

section \<open>The diagram class\<close>

text \<open>
  \<open>Point\<close> is declared in \<open>point.hpp\<close>, which is not part of the sources at hand: a
  point of the plane with its two coordinates.
\<close>

type_synonym Point = "real \<times> real"

text \<open>
  Modelled from the spec: the half-edge graph \<open>HEGraph\<close> of
  \<open>voronoidiagram_graph.hpp\<close> is missing. The data model of the specification gives a
  vertex a position and a status, a face a generating site, a status and a cycle of
  bounding half-edges. The model keeps the vertices and the faces with these fields, the
  boundary of a face as the list of its vertices in the (counter-clockwise) order of the
  \<open>next\<close> cycle. Two vertices are joined by an edge when they follow each other on the
  boundary of a face. A site is a point or a segment between two point handles.
\<close>

datatype VoronoiVertexStatus =
  OUT | IN | NEW | UNDECIDED | OUTER | POINTSITE | ENDPOINT | SEPPOINT

datatype VoronoiFaceStatus = INCIDENT | NONINCIDENT

datatype Site = PointSite Point | LineSite int int

record HEGraph =
  vertices :: "HEVertex list"
  faces :: "HEFace list"
  face_vertices :: "HEFace \<Rightarrow> HEVertex list"
  vertex_status :: "HEVertex \<Rightarrow> VoronoiVertexStatus"
  vertex_position :: "HEVertex \<Rightarrow> Point"
  face_status :: "HEFace \<Rightarrow> VoronoiFaceStatus"
  face_site :: "HEFace \<Rightarrow> Site"

text \<open>
  The data members of \<open>class VoronoiDiagram\<close>, in the order of the header. The three
  pointers to the helper classes (\<open>vd_checker\<close>, \<open>fgrid\<close>, \<open>vpos\<close>) carry no data of
  the diagram and are left out.
\<close>

record VoronoiDiagram =
  g :: HEGraph
  far_radius :: real
  out_verts :: "HEVertex list"
  gen_count :: int
  incident_faces :: "HEFace list"
  modified_vertices :: "HEVertex list"
  v0 :: "HEVertex list"
  vertexQueue :: VertexQueue

text \<open>
  \<^verbatim>\<open>VoronoiDiagram() {}\<close>

  The zero-argument constructor has an empty body and no initialiser list. The members
  of class type are default-constructed (an empty graph, empty vectors, an empty queue);
  the members of built-in type, \<open>far_radius\<close>, \<open>out_verts\<close> and \<open>gen_count\<close>, are not
  written: each holds whatever the storage of the object held before. That earlier
  content is the argument of the model.
\<close>

record uninitialized =
  stale_far_radius :: real
  stale_out_verts :: "HEVertex list"
  stale_gen_count :: int

definition empty_graph :: HEGraph where
  "empty_graph =
     \<lparr>vertices = [], faces = [], face_vertices = (\<lambda>f. []), vertex_status = (\<lambda>v. OUT),
      vertex_position = (\<lambda>v. (0, 0)), face_status = (\<lambda>f. NONINCIDENT),
      face_site = (\<lambda>f. PointSite (0, 0))\<rparr>"

definition VoronoiDiagram_default :: "uninitialized \<Rightarrow> VoronoiDiagram" where
  "VoronoiDiagram_default mem =
     \<lparr>g = empty_graph, far_radius = stale_far_radius mem, out_verts = stale_out_verts mem,
      gen_count = stale_gen_count mem, incident_faces = [], modified_vertices = [],
      v0 = [], vertexQueue = []\<rparr>"

text \<open>
  Modelled from the spec: the body of \<open>VoronoiDiagram(double far, unsigned int n_bins)\<close>
  is missing. The header documents it as ``create diagram with given far-radius and
  number of bins'', \<open>far\<close> being the ``radius of circle centered at (0,0) within which
  all sites must lie'', and the member \<open>far_radius\<close> as that radius; the specification
  has \<open>new(far_radius, n_bins)\<close> and \<open>far_radius()\<close>. The model stores \<open>far\<close> in
  \<open>far_radius\<close>; \<open>n_bins\<close> goes to the face grid, which is not a data member. Of
  \<open>initialize\<close> the specification says that ``the first three (0,1,2) [handles] are
  reserved for the OUTER vertices created by \<open>initialize\<close>'': these are \<open>out_verts\<close>,
  and three generators are counted. The vertices, edges and faces that \<open>initialize\<close>
  builds are not described and not modelled.
\<close>

definition VoronoiDiagram_far :: "real \<Rightarrow> nat \<Rightarrow> VoronoiDiagram" where
  "VoronoiDiagram_far far n_bins =
     \<lparr>g = empty_graph, far_radius = far, out_verts = [0, 1, 2], gen_count = 3,
      incident_faces = [], modified_vertices = [], v0 = [], vertexQueue = []\<rparr>"

text \<open>\<^verbatim>\<open>double get_far_radius() const {return far_radius;}\<close>\<close>

definition get_far_radius :: "VoronoiDiagram \<Rightarrow> real" where
  "get_far_radius vd = far_radius vd"

section \<open>Heap order of the queue\<close>

text \<open>
  A vector is heap-ordered on its first \<open>n\<close> places when no element there has a larger
  key than its parent at \<open>(i - 1) div 2\<close>.
\<close>

definition heap_on :: "('a \<Rightarrow> 'b::linorder) \<Rightarrow> nat \<Rightarrow> 'a list \<Rightarrow> bool" where
  "heap_on key n v = (\<forall>i. 0 < i \<and> i < n \<longrightarrow> key (v ! i) \<le> key (v ! ((i - 1) div 2)))"

definition hole_inv :: "('a \<Rightarrow> 'b::linorder) \<Rightarrow> nat \<Rightarrow> 'a list \<Rightarrow> nat \<Rightarrow> 'a \<Rightarrow> bool" where
  "hole_inv key n v h x =
     ((\<forall>i. 0 < i \<and> i < n \<and> i \<noteq> h \<and> (i - 1) div 2 \<noteq> h \<longrightarrow> key (v ! i) \<le> key (v ! ((i - 1) div 2))) \<and>
      (\<forall>i. 0 < i \<and> i < n \<and> (i - 1) div 2 = h \<longrightarrow> key (v ! i) \<le> key x) \<and>
      (\<forall>i. 0 < i \<and> i < n \<and> (i - 1) div 2 = h \<and> 0 < h \<longrightarrow> key (v ! i) \<le> key (v ! ((h - 1) div 2))))"

lemma hole_inv_step:
  assumes inv: "hole_inv key n v h x" and h: "0 < h" "h < n" "n \<le> length v"
    and lt: "key (v ! ((h - 1) div 2)) < key x"
  shows "hole_inv key n (v[h := v ! ((h - 1) div 2)]) ((h - 1) div 2) x"
proof -
  define p where "p = (h - 1) div 2"
  define v' where "v' = v[h := v ! p]"
  have ph: "p < h" using h unfolding p_def by arith
  have a: "\<And>i. 0 < i \<Longrightarrow> i < n \<Longrightarrow> i \<noteq> h \<Longrightarrow> (i - 1) div 2 \<noteq> h \<Longrightarrow>
              key (v ! i) \<le> key (v ! ((i - 1) div 2))"
    using inv by (simp add: hole_inv_def)
  have c: "\<And>i. 0 < i \<Longrightarrow> i < n \<Longrightarrow> (i - 1) div 2 = h \<Longrightarrow> key (v ! i) \<le> key (v ! p)"
    using inv h by (simp add: hole_inv_def p_def)
  have vh: "v' ! h = v ! p" using h by (simp add: v'_def)
  have vo: "\<And>i. i \<noteq> h \<Longrightarrow> v' ! i = v ! i" by (simp add: v'_def)
  have a': "key (v' ! i) \<le> key (v' ! ((i - 1) div 2))"
    if i: "0 < i" "i < n" "i \<noteq> p" "(i - 1) div 2 \<noteq> p" for i
  proof (cases "(i - 1) div 2 = h")
    case True
    then have "i \<noteq> h" using i by arith
    then show ?thesis using True c [of i] i vh vo by simp
  next
    case False
    then have "i \<noteq> h" using i p_def by auto
    then show ?thesis using False a [of i] i vo by simp
  qed
  have b': "key (v' ! i) \<le> key x" if i: "0 < i" "i < n" "(i - 1) div 2 = p" for i
  proof (cases "i = h")
    case True
    then show ?thesis using vh lt p_def by simp
  next
    case False
    have "(i - 1) div 2 \<noteq> h" using i ph by simp
    then have "key (v ! i) \<le> key (v ! p)" using a [of i] i False by simp
    then show ?thesis using vo [OF False] lt p_def by simp
  qed
  have c': "key (v' ! i) \<le> key (v' ! ((p - 1) div 2))"
    if i: "0 < i" "i < n" "(i - 1) div 2 = p" "0 < p" for i
  proof -
    have pp: "(p - 1) div 2 < p" using i by arith
    have pn: "p < n" using ph h by simp
    have e: "v' ! ((p - 1) div 2) = v ! ((p - 1) div 2)" using pp ph vo by simp
    have "(p - 1) div 2 \<noteq> h" using pp ph by simp
    then have up: "key (v ! p) \<le> key (v ! ((p - 1) div 2))"
      using a [of p] i pn ph by simp
    show ?thesis
    proof (cases "i = h")
      case True
      then show ?thesis using vh up e by simp
    next
      case False
      have "(i - 1) div 2 \<noteq> h" using i ph by simp
      then have "key (v ! i) \<le> key (v ! p)" using a [of i] i False by simp
      then show ?thesis using vo [OF False] up e by simp
    qed
  qed
  show ?thesis
    unfolding hole_inv_def p_def [symmetric] v'_def [symmetric]
    using a' b' c' by blast
qed

lemma hole_inv_done:
  assumes inv: "hole_inv key n v h x" and h: "h < n" "n \<le> length v"
    and stop: "h = 0 \<or> key x \<le> key (v ! ((h - 1) div 2))"
  shows "heap_on key n (v[h := x])"
  unfolding heap_on_def
proof (intro allI impI)
  fix i assume i: "0 < i \<and> i < n"
  have ph: "0 < h \<Longrightarrow> (h - 1) div 2 \<noteq> h" by arith
  consider "i = h" | "i \<noteq> h" "(i - 1) div 2 = h" | "i \<noteq> h" "(i - 1) div 2 \<noteq> h" by blast
  then show "key (v[h := x] ! i) \<le> key (v[h := x] ! ((i - 1) div 2))"
  proof cases
    case 1
    then show ?thesis using i h stop ph by auto
  next
    case 2
    then show ?thesis using i h inv by (auto simp: hole_inv_def)
  next
    case 3
    then show ?thesis using i h inv by (auto simp: hole_inv_def)
  qed
qed

lemma push_heap_loop_heap:
  assumes cmp: "\<And>a b. cmp a b = (key a < key b)"
  shows "hole_inv key n v h x \<Longrightarrow> h < n \<Longrightarrow> n \<le> length v \<Longrightarrow>
         heap_on key n (push_heap_loop cmp v h 0 x)"
proof (induction h arbitrary: v rule: less_induct)
  case (less h)
  show ?case
  proof (cases "0 < h \<and> key (v ! ((h - 1) div 2)) < key x")
    case True
    then have ph: "(h - 1) div 2 < h" by arith
    have "hole_inv key n (v[h := v ! ((h - 1) div 2)]) ((h - 1) div 2) x"
      using hole_inv_step [OF less.prems(1)] True less.prems by simp
    then have "heap_on key n (push_heap_loop cmp (v[h := v ! ((h - 1) div 2)]) ((h - 1) div 2) 0 x)"
      using less.IH [OF ph] less.prems ph by simp
    then show ?thesis
      using True by (subst push_heap_loop.simps) (simp add: cmp Let_def)
  next
    case False
    then have "heap_on key n (v[h := x])"
      using hole_inv_done [OF less.prems(1)] less.prems by (auto simp: not_less)
    then show ?thesis
      using False by (subst push_heap_loop.simps) (auto simp add: cmp Let_def)
  qed
qed

lemma push_heap_loop_length [simp]: "length (push_heap_loop cmp v h t x) = length v"
  by (induction cmp v h t x rule: push_heap_loop.induct)
     (subst push_heap_loop.simps, simp add: Let_def)

lemma push_heap_loop_mset:
  "h < length v \<Longrightarrow> mset (push_heap_loop cmp v h t x) = mset (v[h := x])"
proof (induction cmp v h t x rule: push_heap_loop.induct)
  case (1 cmp v h t x)
  show ?case
  proof (cases "h > t \<and> cmp (v ! ((h - 1) div 2)) x")
    case True
    then have ph: "(h - 1) div 2 < h" by arith
    have "mset (push_heap_loop cmp v h t x) =
          mset (v[h := v ! ((h - 1) div 2), (h - 1) div 2 := x])"
      using True 1 ph by (subst push_heap_loop.simps) (simp add: Let_def)
    also have "\<dots> = mset (v[h := x])"
      using ph "1.prems" by (simp add: mset_update)
    finally show ?thesis .
  next
    case False
    then show ?thesis by (subst push_heap_loop.simps) (auto simp add: Let_def)
  qed
qed

lemma push_heap_loop_above:
  "h < n \<Longrightarrow> n \<le> i \<Longrightarrow> push_heap_loop cmp v h t x ! i = v ! i"
proof (induction cmp v h t x rule: push_heap_loop.induct)
  case (1 cmp v h t x)
  show ?case
  proof (cases "h > t \<and> cmp (v ! ((h - 1) div 2)) x")
    case True
    then have ph: "(h - 1) div 2 < h" by arith
    then show ?thesis
      using True 1 by (subst push_heap_loop.simps) (simp add: Let_def)
  next
    case False
    then show ?thesis using 1 by (subst push_heap_loop.simps) (auto simp add: Let_def)
  qed
qed


lemma adjust_heap_loop_props:
  assumes cmp: "\<And>a b. cmp a b = (key a < key b)"
  shows "heap_on key len v \<Longrightarrow> h < len \<Longrightarrow> len \<le> length v \<Longrightarrow>
         adjust_heap_loop cmp v h h len = (v1, h1, sc1) \<Longrightarrow>
         heap_on key len v1 \<and> h1 = sc1 \<and> h1 < len \<and> (len - 1) div 2 \<le> h1 \<and>
         length v1 = length v \<and> mset (v1[h1 := x]) = mset (v[h := x]) \<and>
         (\<forall>i\<ge>len. v1 ! i = v ! i)"
proof (induction "len - h" arbitrary: v h rule: less_induct)
  case less
  show ?case
  proof (cases "h < (len - 1) div 2")
    case False
    then have "adjust_heap_loop cmp v h h len = (v, h, h)"
      by (subst adjust_heap_loop.simps) simp
    then show ?thesis using less.prems False by simp
  next
    case True
    define sc where "sc = 2 * (h + 1)"
    define sc' where "sc' = (if cmp (v ! sc) (v ! (sc - 1)) then sc - 1 else sc)"
    define v' where "v' = v[h := v ! sc']"
    have sclen: "sc < len" using True unfolding sc_def by arith
    have sc'range: "sc' = 2 * h + 1 \<or> sc' = 2 * h + 2" by (simp add: sc'_def sc_def)
    have sc'len: "sc' < len" using sclen by (auto simp add: sc'_def)
    have hsc': "h < sc'" using sc'range by arith
    have par: "(sc' - 1) div 2 = h" using sc'range by auto
    have hp: "\<And>i. 0 < i \<Longrightarrow> i < len \<Longrightarrow> key (v ! i) \<le> key (v ! ((i - 1) div 2))"
      using less.prems(1) by (simp add: heap_on_def)
    have big: "key (v ! (2 * h + 1)) \<le> key (v ! sc') \<and> key (v ! (2 * h + 2)) \<le> key (v ! sc')"
      by (auto simp: sc'_def sc_def cmp not_less)
    have rec: "adjust_heap_loop cmp v h h len = adjust_heap_loop cmp v' sc' sc' len"
      using True by (subst adjust_heap_loop.simps) (simp add: Let_def sc_def sc'_def v'_def)
    have heap': "heap_on key len v'"
      unfolding heap_on_def
    proof (intro allI impI)
      fix i assume i: "0 < i \<and> i < len"
      consider "i = h" | "i \<noteq> h" "(i - 1) div 2 = h" | "i \<noteq> h" "(i - 1) div 2 \<noteq> h" by blast
      then show "key (v' ! i) \<le> key (v' ! ((i - 1) div 2))"
      proof cases
        case 1
        have "(h - 1) div 2 \<noteq> h" using i 1 by arith
        moreover have "key (v ! sc') \<le> key (v ! h)" using hp [of sc'] sc'len hsc' par by simp
        moreover have "key (v ! h) \<le> key (v ! ((h - 1) div 2))" using hp [of h] i 1 by simp
        ultimately show ?thesis using 1 less.prems by (simp add: v'_def)
      next
        case 2
        then have "i = 2 * h + 1 \<or> i = 2 * h + 2" using i by arith
        then show ?thesis using 2 big less.prems by (auto simp: v'_def)
      next
        case 3
        then show ?thesis using hp [of i] i by (simp add: v'_def)
      qed
    qed
    have res: "adjust_heap_loop cmp v' sc' sc' len = (v1, h1, sc1)"
      using less.prems(4) rec by simp
    have IH: "heap_on key len v1 \<and> h1 = sc1 \<and> h1 < len \<and> (len - 1) div 2 \<le> h1 \<and>
         length v1 = length v' \<and> mset (v1[h1 := x]) = mset (v'[sc' := x]) \<and>
         (\<forall>i\<ge>len. v1 ! i = v' ! i)"
    proof -
      have dec: "len - sc' < len - h" using hsc' sc'len by arith
      have l: "len \<le> length v'" using less.prems(3) by (simp add: v'_def)
      show ?thesis by (rule less.hyps [OF dec heap' sc'len l res])
    qed
    have "mset (v'[sc' := x]) = mset (v[h := x])"
      using hsc' sc'len less.prems by (simp add: v'_def mset_update)
    moreover have "\<forall>i\<ge>len. v' ! i = v ! i" using less.prems by (simp add: v'_def)
    ultimately show ?thesis using IH by (auto simp add: v'_def)
  qed
qed


lemma hole_inv_leaf:
  "heap_on key n v \<Longrightarrow> n \<le> 2 * h + 1 \<Longrightarrow> hole_inv key n v h x"
  unfolding heap_on_def hole_inv_def
  by (intro conjI allI impI) (simp, arith, arith)

lemma adjust_heap_props:
  assumes cmp: "\<And>a b. cmp a b = (key a < key b)"
    and heap: "heap_on key len v" and len: "0 < len" "len \<le> length v"
  shows "heap_on key len (adjust_heap cmp v 0 len x) \<and>
         length (adjust_heap cmp v 0 len x) = length v \<and>
         mset (adjust_heap cmp v 0 len x) = mset (v[0 := x]) \<and>
         (\<forall>i\<ge>len. adjust_heap cmp v 0 len x ! i = v ! i)"
proof -
  obtain v1 h1 sc1 where loop: "adjust_heap_loop cmp v 0 0 len = (v1, h1, sc1)"
    by (cases "adjust_heap_loop cmp v 0 0 len") auto
  have p1: "heap_on key len v1 \<and> h1 = sc1 \<and> h1 < len \<and> (len - 1) div 2 \<le> h1 \<and>
         length v1 = length v \<and> mset (v1[h1 := x]) = mset (v[0 := x]) \<and>
         (\<forall>i\<ge>len. v1 ! i = v ! i)"
    by (rule adjust_heap_loop_props [OF cmp heap len loop])
  have q: "heap_on key len v1" "h1 = sc1" "h1 < len" "(len - 1) div 2 \<le> h1"
    "length v1 = length v" "mset (v1[h1 := x]) = mset (v[0 := x])" "\<forall>i\<ge>len. v1 ! i = v ! i"
    using p1 by blast+
  define single where "single = (len mod 2 = 0 \<and> 2 \<le> len \<and> sc1 = (len - 2) div 2)"
  define v2 where "v2 = (if single then v1[h1 := v1 ! (2 * (sc1 + 1) - 1)] else v1)"
  define h2 where "h2 = (if single then 2 * (sc1 + 1) - 1 else h1)"
  have res: "adjust_heap cmp v 0 len x = push_heap_loop cmp v2 h2 0 x"
    by (simp add: adjust_heap_def loop v2_def h2_def single_def)
  have last_child: "2 * (sc1 + 1) - 1 = len - 1" if single
    using that unfolding single_def by presburger
  have h2len: "h2 < len" using q last_child len by (auto simp: h2_def)
  have leaf: "len \<le> 2 * h2 + 1"
  proof (cases single)
    case True
    then show ?thesis using last_child by (simp add: h2_def)
  next
    case False
    then have "len mod 2 = 0 \<and> 2 \<le> len \<longrightarrow> h1 \<noteq> (len - 2) div 2"
      using q by (auto simp: single_def)
    moreover have "(len - 1) div 2 \<le> h1" using q by simp
    ultimately have "len \<le> 2 * h1 + 1" using len by presburger
    then show ?thesis using False by (simp add: h2_def)
  qed
  have l2: "length v2 = length v" using q by (simp add: v2_def)
  have above: "\<forall>i\<ge>len. v2 ! i = v ! i" using q by (simp add: v2_def)
  have m2: "mset (v2[h2 := x]) = mset (v[0 := x])"
  proof (cases single)
    case False
    then show ?thesis using q by (auto simp add: v2_def h2_def)
  next
    case True
    have lc: "2 * (sc1 + 1) - 1 = len - 1" using last_child True by simp
    have two: "2 \<le> len" "sc1 = (len - 2) div 2" "len mod 2 = 0" using True by (simp_all add: single_def)
    have "h1 < len - 1" using two q(2) by presburger
    moreover have "len - 1 < length v1" using two(1) len(2) q(5) by arith
    moreover have "h2 = len - 1" using True lc by (simp add: h2_def)
    ultimately have "mset (v2[h2 := x]) = mset (v1[h1 := x])"
      using True lc by (simp add: v2_def mset_update)
    then show ?thesis using q(2,6) by simp
  qed
  have heap2: "heap_on key len v2"
  proof (cases single)
    case False
    then show ?thesis using q by (simp add: v2_def)
  next
    case True
    then have e: "2 * (sc1 + 1) - 1 = len - 1" "h1 = (len - 2) div 2" "2 * h1 + 2 = len"
      using q last_child by (auto simp: single_def)
    have hp: "\<And>i. 0 < i \<Longrightarrow> i < len \<Longrightarrow> key (v1 ! i) \<le> key (v1 ! ((i - 1) div 2))"
      using q by (simp add: heap_on_def)
    have v2e: "v2 = v1[h1 := v1 ! (len - 1)]" using True e by (simp add: v2_def)
    have h1l: "h1 < length v1" using q len by simp
    show ?thesis unfolding heap_on_def
    proof (intro allI impI)
      fix i assume i: "0 < i \<and> i < len"
      consider "i = h1" | "i \<noteq> h1" "(i - 1) div 2 = h1" | "i \<noteq> h1" "(i - 1) div 2 \<noteq> h1"
        by blast
      then show "key (v2 ! i) \<le> key (v2 ! ((i - 1) div 2))"
      proof cases
        case 1
        have "(h1 - 1) div 2 \<noteq> h1" using i 1 by arith
        moreover have "(len - 1 - 1) div 2 = h1" using e by arith
        then have "key (v1 ! (len - 1)) \<le> key (v1 ! h1)" using hp [of "len - 1"] e by simp
        moreover have "key (v1 ! h1) \<le> key (v1 ! ((h1 - 1) div 2))" using hp [of h1] i 1 by simp
        ultimately show ?thesis using 1 h1l by (simp add: v2e)
      next
        case 2
        then have "i = len - 1" using i e by arith
        then show ?thesis using 2 h1l by (simp add: v2e)
      next
        case 3
        then show ?thesis using hp [of i] i by (simp add: v2e)
      qed
    qed
  qed
  have inv: "hole_inv key len v2 h2 x" by (rule hole_inv_leaf [OF heap2 leaf])
  have l: "len \<le> length v2" using l2 len by simp
  have "heap_on key len (push_heap_loop cmp v2 h2 0 x)"
    by (rule push_heap_loop_heap [OF cmp inv h2len l])
  moreover have "mset (push_heap_loop cmp v2 h2 0 x) = mset (v[0 := x])"
    using push_heap_loop_mset [of h2 v2 cmp 0 x] h2len l m2 by simp
  moreover have "\<forall>i\<ge>len. push_heap_loop cmp v2 h2 0 x ! i = v ! i"
    using above by (auto simp: push_heap_loop_above [OF h2len])
  ultimately show ?thesis using res l2 by simp
qed

lemma heap_on_top:
  "heap_on key n v \<Longrightarrow> i < n \<Longrightarrow> key (v ! i) \<le> key (v ! 0)"
proof (induction i rule: less_induct)
  case (less i)
  show ?case
  proof (cases "i = 0")
    case True
    then show ?thesis by simp
  next
    case False
    then have p: "(i - 1) div 2 < i" by arith
    have "key (v ! i) \<le> key (v ! ((i - 1) div 2))"
      using less.prems False by (simp add: heap_on_def)
    moreover have "key (v ! ((i - 1) div 2)) \<le> key (v ! 0)"
      using less.IH [OF p less.prems(1)] p less.prems(2) by simp
    ultimately show ?thesis by simp
  qed
qed

lemma push_heap_props:
  assumes cmp: "\<And>a b. cmp a b = (key a < key b)"
    and heap: "heap_on key (length c) c"
  shows "heap_on key (Suc (length c)) (push_heap cmp (c @ [x])) \<and>
         length (push_heap cmp (c @ [x])) = Suc (length c) \<and>
         mset (push_heap cmp (c @ [x])) = add_mset x (mset c)"
proof -
  have e: "push_heap cmp (c @ [x]) = push_heap_loop cmp (c @ [x]) (length c) 0 x"
    by (simp add: push_heap_def)
  have inv: "hole_inv key (Suc (length c)) (c @ [x]) (length c) x"
    unfolding hole_inv_def
  proof (intro conjI allI impI)
    fix i assume i: "0 < i \<and> i < Suc (length c) \<and> i \<noteq> length c \<and> (i - 1) div 2 \<noteq> length c"
    then have "i < length c" "(i - 1) div 2 < length c" by arith+
    then show "key ((c @ [x]) ! i) \<le> key ((c @ [x]) ! ((i - 1) div 2))"
      using heap i by (simp add: heap_on_def nth_append)
  next
    fix i assume "0 < i \<and> i < Suc (length c) \<and> (i - 1) div 2 = length c"
    then have False by arith
    then show "key ((c @ [x]) ! i) \<le> key x" ..
  next
    fix i assume "0 < i \<and> i < Suc (length c) \<and> (i - 1) div 2 = length c \<and> 0 < length c"
    then have False by arith
    then show "key ((c @ [x]) ! i) \<le> key ((c @ [x]) ! ((length c - 1) div 2))" ..
  qed
  have "heap_on key (Suc (length c)) (push_heap_loop cmp (c @ [x]) (length c) 0 x)"
    by (rule push_heap_loop_heap [OF cmp inv]) simp_all
  moreover have "mset (push_heap_loop cmp (c @ [x]) (length c) 0 x) = add_mset x (mset c)"
    using push_heap_loop_mset [of "length c" "c @ [x]" cmp 0 x] by simp
  ultimately show ?thesis using e by simp
qed

lemma pop_heap_props:
  assumes cmp: "\<And>a b. cmp a b = (key a < key b)"
    and heap: "heap_on key (length c) c" and ne: "c \<noteq> []"
  shows "heap_on key (length c - 1) (butlast (pop_heap cmp c)) \<and>
         length (butlast (pop_heap cmp c)) = length c - 1 \<and>
         mset (butlast (pop_heap cmp c)) = mset c - {#c ! 0#}"
proof (cases "length c > 1")
  case False
  then obtain a where "c = [a]" using ne by (cases c) auto
  then show ?thesis by (simp add: pop_heap_def heap_on_def)
next
  case True
  define lst where "lst = length c - 1"
  define v where "v = c[lst := c ! 0]"
  define r where "r = adjust_heap cmp v 0 lst (c ! lst)"
  have lst: "0 < lst" "lst < length c" using True by (simp_all add: lst_def)
  have hv: "heap_on key lst v"
    using heap lst unfolding heap_on_def v_def
    by (auto simp: nth_list_update)
  have props0: "heap_on key lst r \<and> length r = length v \<and> mset r = mset (v[0 := c ! lst]) \<and>
         (\<forall>i\<ge>lst. r ! i = v ! i)"
    unfolding r_def using lst by (intro adjust_heap_props [OF cmp hv]) (simp_all add: v_def)
  have props: "heap_on key lst r" "length r = length v" "mset r = mset (v[0 := c ! lst])"
    "\<forall>i\<ge>lst. r ! i = v ! i"
    using props0 by blast+
  have pr: "pop_heap cmp c = r" using True by (simp add: pop_heap_def r_def v_def lst_def Let_def)
  have lr: "length r = length c" using props by (simp add: v_def)
  have "r \<noteq> []" using lr ne by auto
  have lastr: "last r = c ! 0"
    using props lst lr \<open>r \<noteq> []\<close> by (simp add: last_conv_nth v_def lst_def)
  have "mset r = mset c"
    using props(3) lst ne mset_swap [of 0 c lst] by (simp add: v_def)
  moreover have "mset (butlast r @ [last r]) = add_mset (last r) (mset (butlast r))" by simp
  then have "mset r = add_mset (last r) (mset (butlast r))" using \<open>r \<noteq> []\<close> by simp
  ultimately have "add_mset (c ! 0) (mset (butlast r)) = mset c"
    using lastr by simp
  then have "mset (butlast r) = mset c - {#c ! 0#}"
    by (metis add_mset_remove_trivial)
  moreover have "heap_on key (length c - 1) (butlast r)"
    using props lr lst unfolding heap_on_def lst_def
    by (auto simp: nth_butlast) 
  ultimately show ?thesis using pr lr by simp
qed

lemma adjust_heap_loop_perm:
  "h < len \<Longrightarrow> len \<le> length v \<Longrightarrow>
   adjust_heap_loop cmp v h h len = (v1, h1, sc1) \<Longrightarrow>
   h1 = sc1 \<and> h1 < len \<and> length v1 = length v \<and> mset (v1[h1 := x]) = mset (v[h := x]) \<and>
   (\<forall>i\<ge>len. v1 ! i = v ! i)"
proof (induction "len - h" arbitrary: v h rule: less_induct)
  case less
  show ?case
  proof (cases "h < (len - 1) div 2")
    case False
    then have "adjust_heap_loop cmp v h h len = (v, h, h)"
      by (subst adjust_heap_loop.simps) simp
    then show ?thesis using less.prems False by simp
  next
    case True
    define sc where "sc = 2 * (h + 1)"
    define sc' where "sc' = (if cmp (v ! sc) (v ! (sc - 1)) then sc - 1 else sc)"
    define v' where "v' = v[h := v ! sc']"
    have sclen: "sc < len" using True unfolding sc_def by arith
    have sc'range: "sc' = 2 * h + 1 \<or> sc' = 2 * h + 2" by (simp add: sc'_def sc_def)
    have sc'len: "sc' < len" using sclen by (auto simp add: sc'_def)
    have hsc': "h < sc'" using sc'range by arith
    have rec: "adjust_heap_loop cmp v h h len = adjust_heap_loop cmp v' sc' sc' len"
      using True by (subst adjust_heap_loop.simps) (simp add: Let_def sc_def sc'_def v'_def)
    have res: "adjust_heap_loop cmp v' sc' sc' len = (v1, h1, sc1)"
      using less.prems(3) rec by simp
    have IH: "h1 = sc1 \<and> h1 < len \<and> length v1 = length v' \<and>
         mset (v1[h1 := x]) = mset (v'[sc' := x]) \<and> (\<forall>i\<ge>len. v1 ! i = v' ! i)"
    proof -
      have dec: "len - sc' < len - h" using hsc' sc'len by arith
      have l: "len \<le> length v'" using less.prems(2) by (simp add: v'_def)
      show ?thesis by (rule less.hyps [OF dec sc'len l res])
    qed
    have "mset (v'[sc' := x]) = mset (v[h := x])"
      using hsc' sc'len less.prems by (simp add: v'_def mset_update)
    moreover have "\<forall>i\<ge>len. v' ! i = v ! i" using less.prems by (simp add: v'_def)
    ultimately show ?thesis using IH by (auto simp add: v'_def)
  qed
qed

lemma adjust_heap_perm:
  assumes len: "0 < len" "len \<le> length v"
  shows "length (adjust_heap cmp v 0 len x) = length v \<and>
         mset (adjust_heap cmp v 0 len x) = mset (v[0 := x]) \<and>
         (\<forall>i\<ge>len. adjust_heap cmp v 0 len x ! i = v ! i)"
proof -
  obtain v1 h1 sc1 where loop: "adjust_heap_loop cmp v 0 0 len = (v1, h1, sc1)"
    by (cases "adjust_heap_loop cmp v 0 0 len") auto
  have p1: "h1 = sc1 \<and> h1 < len \<and> length v1 = length v \<and>
            mset (v1[h1 := x]) = mset (v[0 := x]) \<and> (\<forall>i\<ge>len. v1 ! i = v ! i)"
    by (rule adjust_heap_loop_perm [OF len loop])
  have q: "h1 = sc1" "h1 < len" "length v1 = length v"
    "mset (v1[h1 := x]) = mset (v[0 := x])" "\<forall>i\<ge>len. v1 ! i = v ! i"
    using p1 by blast+
  define single where "single = (len mod 2 = 0 \<and> 2 \<le> len \<and> sc1 = (len - 2) div 2)"
  define v2 where "v2 = (if single then v1[h1 := v1 ! (2 * (sc1 + 1) - 1)] else v1)"
  define h2 where "h2 = (if single then 2 * (sc1 + 1) - 1 else h1)"
  have res: "adjust_heap cmp v 0 len x = push_heap_loop cmp v2 h2 0 x"
    by (simp add: adjust_heap_def loop v2_def h2_def single_def)
  have last_child: "2 * (sc1 + 1) - 1 = len - 1" if single
    using that unfolding single_def by presburger
  have h2len: "h2 < len" using q last_child len by (auto simp: h2_def)
  have l2: "length v2 = length v" using q by (simp add: v2_def)
  have above: "\<forall>i\<ge>len. v2 ! i = v ! i" using q by (simp add: v2_def)
  have m2: "mset (v2[h2 := x]) = mset (v[0 := x])"
  proof (cases single)
    case False
    then show ?thesis using q by (auto simp add: v2_def h2_def)
  next
    case True
    have lc: "2 * (sc1 + 1) - 1 = len - 1" using last_child True by simp
    have two: "2 \<le> len" "sc1 = (len - 2) div 2" "len mod 2 = 0"
      using True by (simp_all add: single_def)
    have "h1 < len - 1" using two q(1) by presburger
    moreover have "len - 1 < length v1" using two(1) len(2) q(3) by arith
    moreover have "h2 = len - 1" using True lc by (simp add: h2_def)
    ultimately have "mset (v2[h2 := x]) = mset (v1[h1 := x])"
      using True lc by (simp add: v2_def mset_update)
    then show ?thesis using q(1,4) by simp
  qed
  have l: "h2 < length v2" using l2 len h2len by simp
  have "mset (push_heap_loop cmp v2 h2 0 x) = mset (v[0 := x])"
    using push_heap_loop_mset [OF l, of cmp 0 x] m2 by simp
  moreover have "\<forall>i\<ge>len. push_heap_loop cmp v2 h2 0 x ! i = v ! i"
    using above by (auto simp: push_heap_loop_above [OF h2len])
  ultimately show ?thesis using res l2 by simp
qed

lemma pop_heap_perm:
  assumes ne: "c \<noteq> []"
  shows "length (butlast (pop_heap cmp c)) = length c - 1 \<and>
         mset (butlast (pop_heap cmp c)) = mset c - {#c ! 0#}"
proof (cases "length c > 1")
  case False
  then obtain a where "c = [a]" using ne by (cases c) auto
  then show ?thesis by (simp add: pop_heap_def)
next
  case True
  define lst where "lst = length c - 1"
  define v where "v = c[lst := c ! 0]"
  define r where "r = adjust_heap cmp v 0 lst (c ! lst)"
  have lst: "0 < lst" "lst < length c" using True by (simp_all add: lst_def)
  have props0: "length r = length v \<and> mset r = mset (v[0 := c ! lst]) \<and>
         (\<forall>i\<ge>lst. r ! i = v ! i)"
    unfolding r_def using lst by (intro adjust_heap_perm) (simp_all add: v_def)
  have props: "length r = length v" "mset r = mset (v[0 := c ! lst])"
    "\<forall>i\<ge>lst. r ! i = v ! i"
    using props0 by blast+
  have pr: "pop_heap cmp c = r" using True by (simp add: pop_heap_def r_def v_def lst_def Let_def)
  have lr: "length r = length c" using props by (simp add: v_def)
  have "r \<noteq> []" using lr ne by auto
  have lastr: "last r = c ! 0"
    using props lst lr \<open>r \<noteq> []\<close> by (simp add: last_conv_nth v_def lst_def)
  have "mset r = mset c"
    using props(2) lst ne mset_swap [of 0 c lst] by (simp add: v_def)
  moreover have "mset (butlast r @ [last r]) = add_mset (last r) (mset (butlast r))" by simp
  then have "mset r = add_mset (last r) (mset (butlast r))" using \<open>r \<noteq> []\<close> by simp
  ultimately have "add_mset (c ! 0) (mset (butlast r)) = mset c"
    using lastr by simp
  then have "mset (butlast r) = mset c - {#c ! 0#}"
    by (metis add_mset_remove_trivial)
  then show ?thesis using pr lr by simp
qed

lemma vq_pop_perm: "q \<noteq> [] \<Longrightarrow> mset (vq_pop q) = mset q - {#hd q#}"
  using pop_heap_perm [of q abs_comparison] by (simp add: vq_pop_def hd_conv_nth)

lemma vq_pop_length: "length (vq_pop q) = length q - 1"
  using pop_heap_perm [of q abs_comparison] by (cases "q = []") (simp_all add: vq_pop_def pop_heap_def)

lemma abs_comparison_key: "abs_comparison a b = (det_key a < det_key b)"
  by (simp add: abs_comparison_def det_key_def)

lemma vq_push_heap:
  "heap_on det_key (length q) q \<Longrightarrow> heap_on det_key (length (vq_push x q)) (vq_push x q)"
  using push_heap_props [of abs_comparison det_key q x] abs_comparison_key
  by (simp add: vq_push_def)

lemma vq_push_mset: "mset (vq_push x q) = add_mset x (mset q)"
  using push_heap_loop_mset [of "length q" "q @ [x]" abs_comparison 0 x]
  by (simp add: vq_push_def push_heap_def)

lemma vq_pop_heap:
  "heap_on det_key (length q) q \<Longrightarrow> q \<noteq> [] \<Longrightarrow> heap_on det_key (length (vq_pop q)) (vq_pop q)"
  using pop_heap_props [of abs_comparison det_key q] abs_comparison_key
  by (simp add: vq_pop_def)

lemma vq_pop_mset:
  "heap_on det_key (length q) q \<Longrightarrow> q \<noteq> [] \<Longrightarrow> mset (vq_pop q) = mset q - {#q ! 0#}"
  using pop_heap_props [of abs_comparison det_key q] abs_comparison_key
  by (simp add: vq_pop_def)

lemma vq_run_from_heap:
  "heap_on det_key (length q) q \<Longrightarrow> vq_run_from q ops = Some q' \<Longrightarrow>
   heap_on det_key (length q') q'"
proof (induction q ops rule: vq_run_from.induct)
  case (1 q)
  then show ?case by simp
next
  case (2 q x ops)
  then show ?case using vq_push_heap by simp
next
  case (3 q ops)
  then show ?case using vq_pop_heap by (simp split: if_splits)
qed

section \<open>The classification of vertices\<close>

text \<open>
  Modelled from the spec: the bodies of \<open>augment_vertex_set\<close>, \<open>predicate_c4\<close>,
  \<open>predicate_c5\<close>, \<open>mark_adjacent_faces\<close> and \<open>mark_vertex\<close> are missing (the header
  only declares them). The definitions below follow section 4.5.2 of the specification,
  ``Augmenting the IN-set'', and the comments of the header on the members
  \<open>incident_faces\<close>, \<open>modified_vertices\<close> and \<open>v0\<close>.

  The predicate oracle is outside the core: \<open>in_circle v s\<close> is an argument of the
  algorithm.
\<close>


text \<open>
  The edges of a face: each vertex of the boundary with its successor, the last with the
  first. The neighbours of a vertex are the other ends of its edges, over all faces.
\<close>

definition cyclic_pairs :: "'a list \<Rightarrow> ('a \<times> 'a) list" where
  "cyclic_pairs xs = zip xs (rotate1 xs)"

definition adjacent_vertices :: "HEGraph \<Rightarrow> HEVertex \<Rightarrow> HEVertex list" where
  "adjacent_vertices gr v =
     remdups (concat (map (\<lambda>f. concat (map (\<lambda>(a, b). (if a = v then [b] else []) @
                                                      (if b = v then [a] else []))
                                           (cyclic_pairs (face_vertices gr f))))
                          (faces gr)))"

definition adjacent_faces :: "HEGraph \<Rightarrow> HEVertex \<Rightarrow> HEFace list" where
  "adjacent_faces gr v = filter (\<lambda>f. v \<in> set (face_vertices gr f)) (faces gr)"

text \<open>
  C4: ``the set of IN-vertices on any single face must remain a single connected arc of
  that face''. Going once round the boundary, an arc of IN-vertices starts wherever a
  vertex that is not IN is followed by one that is: the IN-vertices form a single
  connected arc when that happens at most once.

  C5: ``no face may have all its vertices marked IN (the face must survive with at least
  one OUT vertex)''.
\<close>

definition in_arcs :: "bool list \<Rightarrow> nat" where
  "in_arcs bs = length (filter (\<lambda>(a, b). \<not> a \<and> b) (cyclic_pairs bs))"

definition single_arc :: "HEGraph \<Rightarrow> HEFace \<Rightarrow> bool" where
  "single_arc gr f = (in_arcs (map (\<lambda>v. vertex_status gr v = IN) (face_vertices gr f)) \<le> 1)"

definition survives :: "HEGraph \<Rightarrow> HEFace \<Rightarrow> bool" where
  "survives gr f = (\<exists>v\<in>set (face_vertices gr f). vertex_status gr v \<noteq> IN)"

definition guard_c4 :: "HEGraph \<Rightarrow> bool" where
  "guard_c4 gr = (\<forall>f\<in>set (faces gr). single_arc gr f)"

definition guard_c5 :: "HEGraph \<Rightarrow> bool" where
  "guard_c5 gr = (\<forall>f\<in>set (faces gr). survives gr f)"

text \<open>
  The two guards as the classifier asks them of a vertex \<open>v\<close>: would they hold with
  \<open>v\<close> marked IN?
\<close>

definition set_status :: "HEGraph \<Rightarrow> HEVertex \<Rightarrow> VoronoiVertexStatus \<Rightarrow> HEGraph" where
  "set_status gr v st = gr\<lparr>vertex_status := (vertex_status gr)(v := st)\<rparr>"

definition predicate_c4 :: "HEGraph \<Rightarrow> HEVertex \<Rightarrow> bool" where
  "predicate_c4 gr v = guard_c4 (set_status gr v IN)"

definition predicate_c5 :: "HEGraph \<Rightarrow> HEVertex \<Rightarrow> bool" where
  "predicate_c5 gr v = guard_c5 (set_status gr v IN)"

text \<open>
  Steps 1 and 2: ``Compute \<open>d = in_circle(v, s)\<close>. If \<open>d > 0\<close>, provisionally mark IN;
  else OUT. If marking \<open>v\<close> IN would violate either of the two topological guards then
  demote \<open>v\<close> to OUT despite the sign.''
\<close>

definition classify :: "(HEVertex \<Rightarrow> Site \<Rightarrow> real) \<Rightarrow> Site \<Rightarrow> HEGraph \<Rightarrow> HEVertex \<Rightarrow> VoronoiVertexStatus" where
  "classify in_circle site gr v =
     (if 0 < in_circle v site \<and> predicate_c4 gr v \<and> predicate_c5 gr v then IN else OUT)"

text \<open>
  The faces of an IN-vertex become INCIDENT and are recorded in \<open>incident_faces\<close>
  (``temporary variable for incident faces, will be reset to NONINCIDENT after a site
  has been inserted'').
\<close>

definition mark_adjacent_faces :: "HEVertex \<Rightarrow> VoronoiDiagram \<Rightarrow> VoronoiDiagram" where
  "mark_adjacent_faces v vd =
     (let fs = adjacent_faces (g vd) v
      in vd\<lparr>g := (g vd)\<lparr>face_status := (\<lambda>f. if f \<in> set fs then INCIDENT else face_status (g vd) f)\<rparr>,
            incident_faces := incident_faces vd @ fs\<rparr>)"

text \<open>
  Step 3: ``For each neighbor \<open>u\<close> of \<open>v\<close> still UNDECIDED, enqueue it with key
  \<open>|in_circle(u, s)|\<close>.'' The pair holds the determinant; the comparison of the queue
  takes its absolute value.
\<close>

fun enqueue_undecided ::
  "(HEVertex \<Rightarrow> Site \<Rightarrow> real) \<Rightarrow> Site \<Rightarrow> HEGraph \<Rightarrow> HEVertex list \<Rightarrow> VertexQueue \<Rightarrow> VertexQueue" where
  "enqueue_undecided in_circle site gr [] q = q"
| "enqueue_undecided in_circle site gr (u # us) q =
     enqueue_undecided in_circle site gr us
       (if vertex_status gr u = UNDECIDED then vq_push (u, in_circle u site) q else q)"

text \<open>
  One turn of the loop, for the vertex \<open>v\<close> on top of the queue: the vertex is popped,
  classified and recorded in \<open>modified_vertices\<close> (``in-vertices, out-vertices that
  need to be reset''), an IN-vertex also in \<open>v0\<close> (``IN-vertices, i.e. to-be-deleted''),
  and its undecided neighbours are pushed.
\<close>

definition augment_step ::
  "(HEVertex \<Rightarrow> Site \<Rightarrow> real) \<Rightarrow> Site \<Rightarrow> HEVertex \<Rightarrow> VoronoiDiagram \<Rightarrow> VoronoiDiagram" where
  "augment_step in_circle site v vd =
     (let st = classify in_circle site (g vd) v;
          vd1 = vd\<lparr>g := set_status (g vd) v st,
                   modified_vertices := modified_vertices vd @ [v]\<rparr>;
          vd2 = (if st = IN then mark_adjacent_faces v (vd1\<lparr>v0 := v0 vd1 @ [v]\<rparr>) else vd1)
      in vd2\<lparr>vertexQueue :=
               enqueue_undecided in_circle site (g vd2) (adjacent_vertices (g vd2) v)
                 (vq_pop (vertexQueue vd))\<rparr>)"

text \<open>
  The loop ends: a turn either decides a vertex of the boundaries that was UNDECIDED, or
  it removes from the queue an entry of a vertex that is no longer UNDECIDED and adds
  only entries of vertices that are.
\<close>

definition boundary_vertices :: "HEGraph \<Rightarrow> HEVertex list" where
  "boundary_vertices gr = concat (map (face_vertices gr) (faces gr))"

definition undecided :: "HEGraph \<Rightarrow> HEVertex set" where
  "undecided gr = {v \<in> set (boundary_vertices gr). vertex_status gr v = UNDECIDED}"

definition stale_entries :: "VoronoiDiagram \<Rightarrow> nat" where
  "stale_entries vd = size (filter_mset (\<lambda>p. fst p \<notin> undecided (g vd)) (mset (vertexQueue vd)))"

lemma in_cyclic_pairs: "(a, b) \<in> set (cyclic_pairs xs) \<Longrightarrow> a \<in> set xs \<and> b \<in> set xs"
  by (auto simp: cyclic_pairs_def dest: set_zip_leftD set_zip_rightD)

lemma adjacent_on_boundary: "u \<in> set (adjacent_vertices gr v) \<Longrightarrow> u \<in> set (boundary_vertices gr)"
  by (auto simp: adjacent_vertices_def boundary_vertices_def split: if_splits dest: in_cyclic_pairs)

lemma enqueue_undecided_mset:
  "mset (enqueue_undecided ic s gr us q) =
   mset q + mset (map (\<lambda>u. (u, ic u s)) (filter (\<lambda>u. vertex_status gr u = UNDECIDED) us))"
  by (induction us arbitrary: q) (simp_all add: vq_push_mset)

lemma finite_undecided [simp]: "finite (undecided gr)"
  by (simp add: undecided_def)

lemma classify_cases: "classify ic s gr v = IN \<or> classify ic s gr v = OUT"
  by (simp add: classify_def)

lemma augment_step_faces [simp]: "faces (g (augment_step ic s v vd)) = faces (g vd)"
  by (simp add: augment_step_def Let_def mark_adjacent_faces_def set_status_def)

lemma augment_step_face_vertices [simp]:
  "face_vertices (g (augment_step ic s v vd)) = face_vertices (g vd)"
  by (simp add: augment_step_def Let_def mark_adjacent_faces_def set_status_def)

lemma augment_step_status:
  "vertex_status (g (augment_step ic s v vd)) =
     (vertex_status (g vd))(v := classify ic s (g vd) v)"
  by (simp add: augment_step_def Let_def mark_adjacent_faces_def set_status_def)

lemma augment_step_queue:
  "vertexQueue (augment_step ic s v vd) =
   enqueue_undecided ic s (g (augment_step ic s v vd))
     (adjacent_vertices (g (augment_step ic s v vd)) v) (vq_pop (vertexQueue vd))"
  by (simp add: augment_step_def Let_def mark_adjacent_faces_def)

lemma augment_step_boundary [simp]:
  "boundary_vertices (g (augment_step ic s v vd)) = boundary_vertices (g vd)"
  by (simp add: boundary_vertices_def)

lemma augment_step_undecided:
  "undecided (g (augment_step ic s v vd)) = undecided (g vd) - {v}"
proof (rule set_eqI)
  fix u
  have st: "classify ic s (g vd) v \<noteq> UNDECIDED" by (simp add: classify_def)
  show "u \<in> undecided (g (augment_step ic s v vd)) \<longleftrightarrow> u \<in> undecided (g vd) - {v}"
    using st by (cases "u = v") (simp_all add: undecided_def augment_step_status)
qed

lemma augment_step_queue_mset:
  assumes "vertexQueue vd \<noteq> []"
  shows "\<exists>fresh. mset (vertexQueue (augment_step ic s v vd)) =
            mset (vertexQueue vd) - {#hd (vertexQueue vd)#} + fresh \<and>
            (\<forall>p\<in>#fresh. fst p \<in> undecided (g (augment_step ic s v vd)))"
proof -
  let ?gr = "g (augment_step ic s v vd)"
  let ?us = "filter (\<lambda>u. vertex_status ?gr u = UNDECIDED) (adjacent_vertices ?gr v)"
  let ?fresh = "mset (map (\<lambda>u. (u, ic u s)) ?us)"
  have "mset (vertexQueue (augment_step ic s v vd)) =
        mset (vertexQueue vd) - {#hd (vertexQueue vd)#} + ?fresh"
    by (simp add: augment_step_queue [of ic s v vd] enqueue_undecided_mset vq_pop_perm [OF assms])
  moreover have "\<forall>p\<in>#?fresh. fst p \<in> undecided ?gr"
    by (auto simp: undecided_def dest: adjacent_on_boundary)
  ultimately show ?thesis by blast
qed

lemma augment_step_decreases:
  assumes top: "vq_top (vertexQueue vd) = Some (v, d)"
  shows "card (undecided (g (augment_step ic s v vd))) < card (undecided (g vd)) \<or>
         (card (undecided (g (augment_step ic s v vd))) = card (undecided (g vd)) \<and>
          stale_entries (augment_step ic s v vd) < stale_entries vd)"
proof (cases "v \<in> undecided (g vd)")
  case True
  then have "card (undecided (g vd) - {v}) < card (undecided (g vd))"
    by (rule card_Diff1_less [OF finite_undecided])
  then show ?thesis by (simp add: augment_step_undecided)
next
  case False
  let ?vd' = "augment_step ic s v vd"
  have ne: "vertexQueue vd \<noteq> []" using top by (auto simp: vq_top_def)
  have hd: "hd (vertexQueue vd) = (v, d)" using top by (auto simp: vq_top_def split: list.splits)
  have u: "undecided (g ?vd') = undecided (g vd)"
    using False by (simp add: augment_step_undecided)
  obtain fresh where fr: "mset (vertexQueue ?vd') = mset (vertexQueue vd) - {#(v, d)#} + fresh"
    "\<forall>p\<in>#fresh. fst p \<in> undecided (g ?vd')"
    using augment_step_queue_mset [OF ne, of ic s v] hd by auto
  have "hd (vertexQueue vd) \<in> set (vertexQueue vd)" using ne by (rule hd_in_set)
  then have mem: "(v, d) \<in># mset (vertexQueue vd)" using hd by simp
  have "filter_mset (\<lambda>p. fst p \<notin> undecided (g vd)) fresh = {#}"
    using fr(2) u by simp
  then have "stale_entries ?vd' =
        size (filter_mset (\<lambda>p. fst p \<notin> undecided (g vd)) (mset (vertexQueue vd) - {#(v, d)#}))"
    by (simp add: stale_entries_def u fr(1))
  also have "\<dots> < stale_entries vd"
  proof -
    have "(v, d) \<in># filter_mset (\<lambda>p. fst p \<notin> undecided (g vd)) (mset (vertexQueue vd))"
      using mem False by simp
    then have "size (filter_mset (\<lambda>p. fst p \<notin> undecided (g vd)) (mset (vertexQueue vd)) - {#(v, d)#})
               < size (filter_mset (\<lambda>p. fst p \<notin> undecided (g vd)) (mset (vertexQueue vd)))"
      by (rule size_Diff1_less)
    moreover have "filter_mset (\<lambda>p. fst p \<notin> undecided (g vd)) (mset (vertexQueue vd) - {#(v, d)#})
        = filter_mset (\<lambda>p. fst p \<notin> undecided (g vd)) (mset (vertexQueue vd)) - {#(v, d)#}"
      using False by (simp add: filter_diff_mset)
    ultimately show ?thesis
      unfolding stale_entries_def by simp
  qed
  finally show ?thesis using u by simp
qed

lemma augment_step_measure:
  assumes "vq_top (vertexQueue vd) = Some (v, d)"
  shows "((ic, s, augment_step ic s v vd), (ic, s, vd))
         \<in> measures [\<lambda>(ic, s, vd). card (undecided (g vd)), \<lambda>(ic, s, vd). stale_entries vd]"
  using augment_step_decreases [OF assms, of ic s] by simp


text \<open>
  ``Repeatedly pop the highest-confidence vertex'', until the queue is empty.
\<close>

function augment_loop ::
  "(HEVertex \<Rightarrow> Site \<Rightarrow> real) \<Rightarrow> Site \<Rightarrow> VoronoiDiagram \<Rightarrow> VoronoiDiagram" where
  "augment_loop in_circle site vd =
     (case vq_top (vertexQueue vd) of
        None \<Rightarrow> vd
      | Some (v, d) \<Rightarrow> augment_loop in_circle site (augment_step in_circle site v vd))"
  by pat_completeness auto
termination
proof (relation "measures [\<lambda>(ic, s, vd). card (undecided (g vd)), \<lambda>(ic, s, vd). stale_entries vd]")
  show "wf (measures [\<lambda>(ic :: HEVertex \<Rightarrow> Site \<Rightarrow> real, s :: Site, vd). card (undecided (g vd)),
                      \<lambda>(ic, s, vd). stale_entries vd])"
    by (rule wf_measures)
next
  fix in_circle :: "HEVertex \<Rightarrow> Site \<Rightarrow> real" and site :: Site and vd :: VoronoiDiagram
    and x2 :: VertexDetPair and v d
  assume "vq_top (vertexQueue vd) = Some x2" "(v, d) = x2"
  then have "vq_top (vertexQueue vd) = Some (v, d)" by simp
  then show "((in_circle, site, augment_step in_circle site v vd), in_circle, site, vd)
        \<in> measures [\<lambda>(ic, s, vd). card (undecided (g vd)), \<lambda>(ic, s, vd). stale_entries vd]"
    by (rule augment_step_measure)
qed

declare augment_loop.simps [simp del]

text \<open>
  ``Push \<open>v_seed\<close> into the VertexQueue with key \<open>|in_circle(v_seed, s)|\<close>'', then run
  the loop.
\<close>

definition push_seed ::
  "(HEVertex \<Rightarrow> Site \<Rightarrow> real) \<Rightarrow> HEVertex \<Rightarrow> Site \<Rightarrow> VoronoiDiagram \<Rightarrow> VoronoiDiagram" where
  "push_seed in_circle v_seed site vd =
     vd\<lparr>vertexQueue := vq_push (v_seed, in_circle v_seed site) (vertexQueue vd)\<rparr>"

definition augment_vertex_set ::
  "(HEVertex \<Rightarrow> Site \<Rightarrow> real) \<Rightarrow> HEVertex \<Rightarrow> Site \<Rightarrow> VoronoiDiagram \<Rightarrow> VoronoiDiagram" where
  "augment_vertex_set in_circle v_seed site vd =
     augment_loop in_circle site (push_seed in_circle v_seed site vd)"


















section \<open>The seed vertex\<close>

text \<open>
  Modelled from the spec: the body of \<open>find_seed_vertex\<close> is missing. Section 4.5.1:
  ``On \<open>f_seed\<close> find the seed vertex \<open>v_seed\<close>: iterate vertices of \<open>f_seed\<close> and pick
  the one with the most-positive \<open>in_circle(v, s)\<close>.'' The scan keeps the best vertex so
  far and replaces it by a vertex of strictly larger determinant; a face without
  vertices has no seed.
\<close>

fun seed_scan :: "(HEVertex \<Rightarrow> Site \<Rightarrow> real) \<Rightarrow> Site \<Rightarrow> HEVertex list \<Rightarrow> HEVertex \<Rightarrow> HEVertex" where
  "seed_scan in_circle site [] best = best"
| "seed_scan in_circle site (v # vs) best =
     seed_scan in_circle site vs (if in_circle best site < in_circle v site then v else best)"

definition find_seed_vertex ::
  "(HEVertex \<Rightarrow> Site \<Rightarrow> real) \<Rightarrow> HEGraph \<Rightarrow> HEFace \<Rightarrow> Site \<Rightarrow> HEVertex option" where
  "find_seed_vertex in_circle gr f site =
     (case face_vertices gr f of
        [] \<Rightarrow> None
      | v # vs \<Rightarrow> Some (seed_scan in_circle site vs v))"

lemma seed_scan_max:
  "seed_scan ic s vs best \<in> set (best # vs) \<and>
   (\<forall>u\<in>set (best # vs). ic u s \<le> ic (seed_scan ic s vs best) s)"
proof (induction vs arbitrary: best)
  case Nil
  then show ?case by simp
next
  case (Cons v vs)
  let ?b = "if ic best s < ic v s then v else best"
  have IH: "seed_scan ic s vs ?b \<in> set (?b # vs) \<and>
            (\<forall>u\<in>set (?b # vs). ic u s \<le> ic (seed_scan ic s vs ?b) s)"
    by (rule Cons.IH)
  have b: "ic best s \<le> ic ?b s" "ic v s \<le> ic ?b s" by auto
  have "ic ?b s \<le> ic (seed_scan ic s vs ?b) s" using IH by simp
  then have "ic best s \<le> ic (seed_scan ic s vs ?b) s" "ic v s \<le> ic (seed_scan ic s vs ?b) s"
    using b by linarith+
  moreover have "seed_scan ic s vs ?b \<in> set (best # v # vs)" using IH by auto
  ultimately show ?case using IH by simp
qed









lemma vq_push_empty: "vq_push x [] = [x]"
  by (simp add: vq_push_def push_heap_def push_heap_loop.simps)

section \<open>The insertion of a point site\<close>

text \<open>
  Modelled from the spec: the bodies of \<open>insert_point_site\<close>, \<open>find_in_out_edges\<close>,
  \<open>add_new_vertices\<close>, \<open>add_vertex_in_edge\<close>, \<open>add_new_face\<close>, \<open>add_new_edge\<close>,
  \<open>remove_vertex_set\<close> and \<open>reset_status\<close> are missing. The definitions of this section
  follow sections 4.5.3 to 4.5.6, 6 and 7 of the specification, on the graph of faces
  with boundary cycles. \<open>insert_line_site\<close> is not modelled: the specification leaves
  open how a handle finds the vertex of its point site and where the separators enter
  the ring of the new face.

  The error kinds of section 7.
\<close>

datatype error = OutOfBounds | UnknownHandle | Duplicate | Crossing | Degeneracy | InvariantViolation

text \<open>
  The external collaborators: the predicate oracle (\<open>in_circle\<close>), the face grid
  (\<open>closest_face\<close>) and the vertex positioner, which ``fails with \<open>NoPosition\<close>'' by
  returning no position. The retries of section 4.5.3 are the positioner's own: no
  position means that the failure was not cured.
\<close>

record oracles =
  po_in_circle :: "HEVertex \<Rightarrow> Site \<Rightarrow> real"
  fg_closest_face :: "HEGraph \<Rightarrow> Point \<Rightarrow> HEFace"
  vp_position :: "HEGraph \<Rightarrow> HEVertex \<Rightarrow> HEVertex \<Rightarrow> Site \<Rightarrow> Point option"

text \<open>
  The state machine of section 4.5.6: when the site arrives, the OUT-vertices become
  UNDECIDED.
\<close>

definition site_arrives :: "HEGraph \<Rightarrow> HEGraph" where
  "site_arrives gr =
     gr\<lparr>vertex_status := (\<lambda>v. if vertex_status gr v = OUT then UNDECIDED else vertex_status gr v)\<rparr>"

text \<open>
  ``Enumerate the IN/OUT boundary edges: edges \<open>(a,b)\<close> with \<open>a.status = IN\<close> and
  \<open>b.status = OUT\<close>.'' Every edge bounds two faces and is listed once.
\<close>

definition find_in_out_edges :: "HEGraph \<Rightarrow> (HEVertex \<times> HEVertex) list" where
  "find_in_out_edges gr =
     remdups (concat (map (\<lambda>f. concat (map (\<lambda>(a, b).
          if vertex_status gr a = IN \<and> vertex_status gr b = OUT then [(a, b)]
          else if vertex_status gr b = IN \<and> vertex_status gr a = OUT then [(b, a)]
          else [])
        (cyclic_pairs (face_vertices gr f)))) (faces gr)))"

text \<open>
  ``Each NEW vertex is inserted into the edge (splitting the edge into two), inheriting
  the edge's face on both sides'': on every boundary on which \<open>a\<close> and \<open>b\<close> follow each
  other, in either order, the new vertex \<open>n\<close> comes between them.
\<close>

definition split_edge :: "HEVertex \<Rightarrow> HEVertex \<Rightarrow> HEVertex \<Rightarrow> HEVertex list \<Rightarrow> HEVertex list" where
  "split_edge a b n xs =
     concat (map (\<lambda>(u, w). if (u = a \<and> w = b) \<or> (u = b \<and> w = a) then [u, n] else [u])
                 (cyclic_pairs xs))"

text \<open>New vertices and faces take the first descriptor above those in use.\<close>

definition fresh_vertex :: "HEGraph \<Rightarrow> HEVertex" where
  "fresh_vertex gr = Suc (fold max (vertices gr @ boundary_vertices gr) 0)"

definition fresh_face :: "HEGraph \<Rightarrow> HEFace" where
  "fresh_face gr = Suc (fold max (faces gr) 0)"

definition add_vertex_in_edge :: "HEVertex \<Rightarrow> HEVertex \<times> HEVertex \<Rightarrow> Point \<Rightarrow> HEGraph \<Rightarrow> HEGraph" where
  "add_vertex_in_edge n e pos gr =
     gr\<lparr>vertices := vertices gr @ [n],
        vertex_status := (vertex_status gr)(n := NEW),
        vertex_position := (vertex_position gr)(n := pos),
        face_vertices := (\<lambda>f. split_edge (fst e) (snd e) n (face_vertices gr f))\<rparr>"

fun place_new_vertices :: "((HEVertex \<times> HEVertex) \<times> Point) list \<Rightarrow> VoronoiDiagram \<Rightarrow> VoronoiDiagram" where
  "place_new_vertices [] vd = vd"
| "place_new_vertices ((e, pos) # rest) vd =
     (let n = fresh_vertex (g vd)
      in place_new_vertices rest
           (vd\<lparr>g := add_vertex_in_edge n e pos (g vd),
               modified_vertices := modified_vertices vd @ [n]\<rparr>))"

text \<open>
  The positions of all new vertices are asked first; the graph is touched only when the
  positioner has answered for every boundary edge (``no edges mutated'' on failure). The
  new vertices are recorded in \<open>modified_vertices\<close>.
\<close>

definition add_new_vertices ::
  "(HEGraph \<Rightarrow> HEVertex \<Rightarrow> HEVertex \<Rightarrow> Site \<Rightarrow> Point option) \<Rightarrow> Site \<Rightarrow> VoronoiDiagram \<Rightarrow> VoronoiDiagram option" where
  "add_new_vertices position site vd =
     (let edges = find_in_out_edges (g vd)
      in case those (map (\<lambda>(a, b). position (g vd) a b site) edges) of
           None \<Rightarrow> None
         | Some ps \<Rightarrow> Some (place_new_vertices (zip edges ps) vd))"

text \<open>
  ``Add a new face \<open>f_new\<close> with site \<open>s\<close>. Walk the ring of NEW vertices around the
  IN-set in CCW order; between consecutive NEW vertices, add a new edge pair, one half
  belonging to \<open>f_new\<close>, twin belonging to the neighboring surviving face.'' On the
  boundary of an incident face the IN-vertices lie between a NEW vertex before them and
  a NEW vertex after them; with the IN-vertices gone, the face has the edge from the
  first to the second, and the new face has its twin, from the second to the first.
\<close>

definition ring_links :: "VoronoiDiagram \<Rightarrow> (HEVertex \<times> HEVertex) list" where
  "ring_links vd =
     concat (map (\<lambda>f.
        (let ps = cyclic_pairs (face_vertices (g vd) f);
             entry = map fst (filter (\<lambda>(a, b). vertex_status (g vd) a = NEW \<and> vertex_status (g vd) b = IN) ps);
             exit = map snd (filter (\<lambda>(a, b). vertex_status (g vd) a = IN \<and> vertex_status (g vd) b = NEW) ps)
         in zip exit entry))
        (remdups (incident_faces vd)))"

fun ring_walk :: "(HEVertex \<times> HEVertex) list \<Rightarrow> nat \<Rightarrow> HEVertex \<Rightarrow> HEVertex list" where
  "ring_walk links 0 v = []"
| "ring_walk links (Suc k) v =
     v # (case map_of links v of None \<Rightarrow> [] | Some w \<Rightarrow> ring_walk links k w)"

definition new_ring :: "VoronoiDiagram \<Rightarrow> HEVertex list" where
  "new_ring vd =
     (case ring_links vd of
        [] \<Rightarrow> []
      | (v, w) # rest \<Rightarrow> ring_walk ((v, w) # rest) (Suc (length rest)) v)"

definition add_new_face :: "Site \<Rightarrow> VoronoiDiagram \<Rightarrow> VoronoiDiagram" where
  "add_new_face site vd =
     (let f = fresh_face (g vd); ring = new_ring vd
      in vd\<lparr>g := (g vd)\<lparr>faces := faces (g vd) @ [f],
                         face_vertices := (face_vertices (g vd))(f := ring),
                         face_status := (face_status (g vd))(f := NONINCIDENT),
                         face_site := (face_site (g vd))(f := site)\<rparr>\<rparr>)"

text \<open>``Finally, all IN-vertices and their incident edges are removed.''\<close>

definition remove_vertex_set :: "VoronoiDiagram \<Rightarrow> VoronoiDiagram" where
  "remove_vertex_set vd =
     vd\<lparr>g := (g vd)\<lparr>vertices := filter (\<lambda>v. v \<notin> set (v0 vd)) (vertices (g vd)),
                     face_vertices := (\<lambda>f. filter (\<lambda>v. v \<notin> set (v0 vd)) (face_vertices (g vd) f))\<rparr>\<rparr>"

text \<open>
  Section 4.5.5 and section 5: ``Reset \<open>face.status\<close> to NONINCIDENT for all touched
  faces; reset NEW to NORMAL; clear \<open>modified_vertices\<close> and \<open>v0\<close>''; UNDECIDED ``is a
  transient label scrubbed before return''; on a failure ``IN/NEW/UNDECIDED labels
  cleared''; the queue and the three vectors are ``cleared on every exit path''.
\<close>

definition reset_status :: "VoronoiDiagram \<Rightarrow> VoronoiDiagram" where
  "reset_status vd =
     vd\<lparr>g := (g vd)\<lparr>vertex_status :=
                       (\<lambda>v. if vertex_status (g vd) v \<in> {IN, NEW, UNDECIDED} then OUT
                            else vertex_status (g vd) v),
                     face_status :=
                       (\<lambda>f. if f \<in> set (incident_faces vd) then NONINCIDENT
                            else face_status (g vd) f)\<rparr>,
        incident_faces := [], modified_vertices := [], v0 := [], vertexQueue := []\<rparr>"

text \<open>
  ``Point with \<open>|p| < far_radius\<close>'': without the square root, so that the test can be
  evaluated.
\<close>

definition inside_far_radius :: "Point \<Rightarrow> real \<Rightarrow> bool" where
  "inside_far_radius p far = (0 < far \<and> (fst p)\<^sup>2 + (snd p)\<^sup>2 < far\<^sup>2)"

lemma inside_far_radius_norm:
  "inside_far_radius p far = (sqrt ((fst p)\<^sup>2 + (snd p)\<^sup>2) < far)"
proof (cases "0 < far")
  case True
  then have "sqrt ((fst p)\<^sup>2 + (snd p)\<^sup>2) < far \<longleftrightarrow> (fst p)\<^sup>2 + (snd p)\<^sup>2 < far\<^sup>2"
    by (metis real_sqrt_less_iff real_sqrt_abs abs_of_pos)
  then show ?thesis using True by (simp add: inside_far_radius_def)
next
  case False
  have "0 \<le> sqrt ((fst p)\<^sup>2 + (snd p)\<^sup>2)" by simp
  then have "\<not> sqrt ((fst p)\<^sup>2 + (snd p)\<^sup>2) < far" using False by linarith
  then show ?thesis using False by (simp add: inside_far_radius_def)
qed

text \<open>
  The insertion. A site outside the far radius is \<open>OutOfBounds\<close>, a site that coincides
  with the site of a face is \<open>Duplicate\<close>; both leave the diagram as it is. A failure of
  the classification or of the positioner is \<open>Degeneracy\<close>, after which the labels are
  cleared. A completed insertion returns the handle, the number of generators so far
  (``dense nonnegative integers assigned in insertion order'').
\<close>

definition insert_point_site :: "oracles \<Rightarrow> Point \<Rightarrow> VoronoiDiagram \<Rightarrow> (error + int) \<times> VoronoiDiagram" where
  "insert_point_site orc p vd =
     (if \<not> inside_far_radius p (far_radius vd) then (Inl OutOfBounds, vd)
      else if PointSite p \<in> set (map (face_site (g vd)) (faces (g vd))) then (Inl Duplicate, vd)
      else
        (let site = PointSite p;
             vd1 = vd\<lparr>g := site_arrives (g vd)\<rparr>;
             f_seed = fg_closest_face orc (g vd1) p
         in case find_seed_vertex (po_in_circle orc) (g vd1) f_seed site of
              None \<Rightarrow> (Inl Degeneracy, reset_status vd1)
            | Some v_seed \<Rightarrow>
                (let vd2 = augment_vertex_set (po_in_circle orc) v_seed site vd1
                 in case add_new_vertices (vp_position orc) site vd2 of
                      None \<Rightarrow> (Inl Degeneracy, reset_status vd2)
                    | Some vd3 \<Rightarrow>
                        (let vd4 = reset_status (remove_vertex_set (add_new_face site vd3))
                         in (Inr (gen_count vd), vd4\<lparr>gen_count := gen_count vd + 1\<rparr>)))))"

text \<open>A sequence of insertions, with the result of each call.\<close>

fun insert_points ::
  "oracles \<Rightarrow> Point list \<Rightarrow> VoronoiDiagram \<Rightarrow> (error + int) list \<times> VoronoiDiagram" where
  "insert_points orc [] vd = ([], vd)"
| "insert_points orc (p # ps) vd =
     (let (r, vd1) = insert_point_site orc p vd;
          (rs, vd2) = insert_points orc ps vd1
      in (r # rs, vd2))"


text \<open>The sites of the diagram: the generating sites of its faces.\<close>

definition sites_of :: "VoronoiDiagram \<Rightarrow> Site set" where
  "sites_of vd = set (map (face_site (g vd)) (faces (g vd)))"

text \<open>
  An example: the diagram of three sites, with the vertex 0 in the middle, joined to the
  outer vertices 1, 2 and 3; the faces 0, 1 and 2 of the three sites and the outer face
  3. The oracle puts the site \<open>(0, 0)\<close> next to vertex 0, in face 0, and the site
  \<open>(0, 1/2)\<close> next to vertex 4, in face 4: they are the first NEW vertex and the new
  face of the first insertion.
\<close>

definition three_sites :: VoronoiDiagram where
  "three_sites =
     \<lparr>g = \<lparr>vertices = [0, 1, 2, 3],
            faces = [0, 1, 2, 3],
            face_vertices = (\<lambda>f. if f = 0 then [0, 1, 2] else if f = 1 then [0, 2, 3]
                                 else if f = 2 then [0, 3, 1] else if f = 3 then [2, 1, 3] else []),
            vertex_status = (\<lambda>v. OUT),
            vertex_position = (\<lambda>v. (0, 0)),
            face_status = (\<lambda>f. NONINCIDENT),
            face_site = (\<lambda>f. if f = 0 then PointSite (0, 3) else if f = 1 then PointSite (-3, -2)
                              else if f = 2 then PointSite (3, -2) else PointSite (100, 100))\<rparr>,
      far_radius = 1, out_verts = [0, 1, 2], gen_count = 3, incident_faces = [],
      modified_vertices = [], v0 = [], vertexQueue = []\<rparr>"

definition centre_oracle :: oracles where
  "centre_oracle =
     \<lparr>po_in_circle = (\<lambda>v s. if (s = PointSite (0, 0) \<and> v = 0) \<or>
                                  (s = PointSite (0, 1 / 2) \<and> v = 4) then 1 else - 1),
      fg_closest_face = (\<lambda>gr p. if p = (0, 0) then 0 else 4),
      vp_position = (\<lambda>gr a b s. Some (0, 0))\<rparr>"

subsection \<open>What an insertion leaves untouched\<close>

definition same_frame :: "VoronoiDiagram \<Rightarrow> VoronoiDiagram \<Rightarrow> bool" where
  "same_frame vd vd' =
     (faces (g vd') = faces (g vd) \<and> face_site (g vd') = face_site (g vd) \<and>
      far_radius vd' = far_radius vd \<and> gen_count vd' = gen_count vd)"

lemma same_frame_refl [simp]: "same_frame vd vd"
  by (simp add: same_frame_def)

lemma same_frame_trans: "same_frame a b \<Longrightarrow> same_frame b c \<Longrightarrow> same_frame a c"
  by (simp add: same_frame_def)

lemma augment_step_frame: "same_frame vd (augment_step ic s v vd)"
  by (simp add: same_frame_def augment_step_def Let_def mark_adjacent_faces_def set_status_def)

lemma augment_loop_frame: "same_frame vd (augment_loop ic s vd)"
proof (induction ic s vd rule: augment_loop.induct)
  case (1 ic s vd)
  show ?case
  proof (cases "vq_top (vertexQueue vd)")
    case None
    then show ?thesis by (subst augment_loop.simps) simp
  next
    case (Some p)
    obtain v d where p: "p = (v, d)" by (cases p)
    have "same_frame (augment_step ic s v vd) (augment_loop ic s (augment_step ic s v vd))"
      by (rule "1.IH" [OF Some p [symmetric]])
    then have "same_frame vd (augment_loop ic s (augment_step ic s v vd))"
      using augment_step_frame same_frame_trans by blast
    moreover have "augment_loop ic s vd = augment_loop ic s (augment_step ic s v vd)"
      using Some p by (subst augment_loop.simps) simp
    ultimately show ?thesis by simp
  qed
qed

lemma augment_vertex_set_frame: "same_frame vd (augment_vertex_set ic v s vd)"
proof -
  have "same_frame vd (push_seed ic v s vd)" by (simp add: same_frame_def push_seed_def)
  then show ?thesis
    unfolding augment_vertex_set_def using augment_loop_frame same_frame_trans by blast
qed

lemma place_new_vertices_frame: "same_frame vd (place_new_vertices eps vd)"
proof (induction eps arbitrary: vd)
  case Nil
  then show ?case by simp
next
  case (Cons ep eps)
  obtain e pos where ep: "ep = (e, pos)" by (cases ep)
  let ?vd = "vd\<lparr>g := add_vertex_in_edge (fresh_vertex (g vd)) e pos (g vd),
                 modified_vertices := modified_vertices vd @ [fresh_vertex (g vd)]\<rparr>"
  have "same_frame vd ?vd" by (simp add: same_frame_def add_vertex_in_edge_def)
  moreover have "same_frame ?vd (place_new_vertices eps ?vd)" by (rule Cons.IH)
  ultimately have "same_frame vd (place_new_vertices eps ?vd)" using same_frame_trans by blast
  then show ?case by (simp add: ep Let_def)
qed

lemma add_new_vertices_frame: "add_new_vertices vp s vd = Some vd' \<Longrightarrow> same_frame vd vd'"
  by (auto simp: add_new_vertices_def Let_def place_new_vertices_frame split: option.splits)

lemma site_arrives_frame: "same_frame vd (vd\<lparr>g := site_arrives (g vd)\<rparr>)"
  by (simp add: same_frame_def site_arrives_def)

lemma reset_status_frame: "same_frame vd (reset_status vd)"
  by (simp add: same_frame_def reset_status_def)

lemma remove_vertex_set_frame: "same_frame vd (remove_vertex_set vd)"
  by (simp add: same_frame_def remove_vertex_set_def)

lemma insert_point_site_cases:
  obtains
    (out_of_bounds) "\<not> inside_far_radius p (far_radius vd)"
      "insert_point_site orc p vd = (Inl OutOfBounds, vd)"
  | (duplicate) "inside_far_radius p (far_radius vd)"
      "PointSite p \<in> set (map (face_site (g vd)) (faces (g vd)))"
      "insert_point_site orc p vd = (Inl Duplicate, vd)"
  | (degeneracy) vdx where "inside_far_radius p (far_radius vd)"
      "PointSite p \<notin> set (map (face_site (g vd)) (faces (g vd)))"
      "same_frame vd vdx" "insert_point_site orc p vd = (Inl Degeneracy, reset_status vdx)"
  | (inserted) vd3 where "inside_far_radius p (far_radius vd)"
      "PointSite p \<notin> set (map (face_site (g vd)) (faces (g vd)))"
      "same_frame vd vd3"
      "insert_point_site orc p vd =
         (Inr (gen_count vd),
          (reset_status (remove_vertex_set (add_new_face (PointSite p) vd3)))
            \<lparr>gen_count := gen_count vd + 1\<rparr>)"
proof (cases "inside_far_radius p (far_radius vd)")
  case False
  then show ?thesis using out_of_bounds by (simp add: insert_point_site_def)
next
  case inside: True
  show ?thesis
  proof (cases "PointSite p \<in> set (map (face_site (g vd)) (faces (g vd)))")
    case True
    then show ?thesis using duplicate inside by (simp add: insert_point_site_def)
  next
    case fresh: False
    let ?vd1 = "vd\<lparr>g := site_arrives (g vd)\<rparr>"
    have f1: "same_frame vd ?vd1" by (rule site_arrives_frame)
    show ?thesis
    proof (cases "find_seed_vertex (po_in_circle orc) (g ?vd1) (fg_closest_face orc (g ?vd1) p) (PointSite p)")
      case None
      then have "insert_point_site orc p vd = (Inl Degeneracy, reset_status ?vd1)"
        using inside fresh by (simp add: insert_point_site_def Let_def)
      then show ?thesis using degeneracy [OF inside fresh f1] by blast
    next
      case (Some v_seed)
      let ?vd2 = "augment_vertex_set (po_in_circle orc) v_seed (PointSite p) ?vd1"
      have f2: "same_frame vd ?vd2"
        using f1 augment_vertex_set_frame same_frame_trans by blast
      show ?thesis
      proof (cases "add_new_vertices (vp_position orc) (PointSite p) ?vd2")
        case None
        then have "insert_point_site orc p vd = (Inl Degeneracy, reset_status ?vd2)"
          using inside fresh Some by (simp add: insert_point_site_def Let_def)
        then show ?thesis using degeneracy [OF inside fresh f2] by blast
      next
        case (Some vd3)
        have f3: "same_frame vd vd3"
          using f2 add_new_vertices_frame [OF Some] same_frame_trans by blast
        have "insert_point_site orc p vd =
               (Inr (gen_count vd),
                (reset_status (remove_vertex_set (add_new_face (PointSite p) vd3)))
                  \<lparr>gen_count := gen_count vd + 1\<rparr>)"
          using inside fresh Some \<open>find_seed_vertex _ _ _ _ = Some v_seed\<close>
          by (simp add: insert_point_site_def Let_def)
        then show ?thesis using inserted [OF inside fresh f3] by blast
      qed
    qed
  qed
qed

lemma fold_max_ge: "(a :: nat) \<le> fold max xs a \<and> (\<forall>x\<in>set xs. x \<le> fold max xs a)"
proof (induction xs arbitrary: a)
  case Nil
  then show ?case by simp
next
  case (Cons y ys)
  have "max y a \<le> fold max ys (max y a) \<and> (\<forall>x\<in>set ys. x \<le> fold max ys (max y a))"
    by (rule Cons.IH)
  then show ?case by auto
qed

lemma fresh_face_new: "fresh_face gr \<notin> set (faces gr)"
proof
  assume "fresh_face gr \<in> set (faces gr)"
  then have "fresh_face gr \<le> fold max (faces gr) 0" using fold_max_ge by blast
  then show False by (simp add: fresh_face_def)
qed

lemma same_frame_sites: "same_frame vd vd' \<Longrightarrow> sites_of vd' = sites_of vd"
  by (simp add: same_frame_def sites_of_def)

lemma inserted_sites:
  "sites_of ((reset_status (remove_vertex_set (add_new_face s vd3)))\<lparr>gen_count := n\<rparr>)
     = insert s (sites_of vd3)"
proof -
  have "map (face_site (g vd3)) (faces (g vd3))
        = map ((face_site (g vd3))(fresh_face (g vd3) := s)) (faces (g vd3))"
    using fresh_face_new [of "g vd3"] by (auto simp: fun_upd_def)
  then show ?thesis
    by (simp add: sites_of_def reset_status_def remove_vertex_set_def add_new_face_def Let_def)
qed

lemma insert_point_site_effect:
  assumes "insert_point_site orc p vd = (r, vd')"
  shows "far_radius vd' = far_radius vd \<and>
         (case r of
            Inl e \<Rightarrow> sites_of vd' = sites_of vd \<and> gen_count vd' = gen_count vd
          | Inr h \<Rightarrow> sites_of vd' = insert (PointSite p) (sites_of vd) \<and>
                     inside_far_radius p (far_radius vd) \<and>
                     h = gen_count vd \<and> gen_count vd' = gen_count vd + 1)"
proof (cases rule: insert_point_site_cases [where p = p and vd = vd and orc = orc])
  case out_of_bounds
  then have "r = Inl OutOfBounds" "vd' = vd" using assms by simp_all
  then show ?thesis by simp
next
  case duplicate
  then have "r = Inl Duplicate" "vd' = vd" using assms by simp_all
  then show ?thesis by simp
next
  case (degeneracy vdx)
  have e: "r = Inl Degeneracy" "vd' = reset_status vdx" using assms degeneracy(4) by simp_all
  have fr: "same_frame vd vd'"
    unfolding e using degeneracy(3) reset_status_frame same_frame_trans by blast
  have "far_radius vd' = far_radius vd" "gen_count vd' = gen_count vd"
    using fr by (simp_all add: same_frame_def)
  then show ?thesis using same_frame_sites [OF fr] by (simp add: e(1))
next
  case (inserted vd3)
  have r: "r = Inr (gen_count vd)"
    and vd': "vd' = (reset_status (remove_vertex_set (add_new_face (PointSite p) vd3)))
                      \<lparr>gen_count := gen_count vd + 1\<rparr>"
    using assms inserted(4) by simp_all
  have "sites_of vd' = insert (PointSite p) (sites_of vd)"
    unfolding vd' inserted_sites using same_frame_sites [OF inserted(3)] by simp
  moreover have "far_radius vd' = far_radius vd"
    using inserted(3)
    by (simp add: vd' same_frame_def reset_status_def remove_vertex_set_def add_new_face_def Let_def)
  moreover have "gen_count vd' = gen_count vd + 1" by (simp add: vd')
  ultimately show ?thesis using r inserted(1) by simp
qed

lemma insert_point_site_duplicate:
  assumes "inside_far_radius p (far_radius vd)" and "PointSite p \<in> sites_of vd"
  shows "insert_point_site orc p vd = (Inl Duplicate, vd)"
  using assms by (simp add: insert_point_site_def sites_of_def)

lemma insert_points_keep:
  assumes "insert_points orc ps vd = (rs, vd')"
  shows "length rs = length ps \<and> far_radius vd' = far_radius vd \<and> sites_of vd \<subseteq> sites_of vd'"
  using assms
proof (induction ps arbitrary: vd rs vd')
  case Nil
  then show ?case by simp
next
  case (Cons p ps)
  obtain r vd1 where one: "insert_point_site orc p vd = (r, vd1)"
    by (cases "insert_point_site orc p vd")
  obtain rs' vd2 where rest: "insert_points orc ps vd1 = (rs', vd2)"
    by (cases "insert_points orc ps vd1")
  have e: "rs = r # rs'" "vd' = vd2" using Cons.prems one rest by simp_all
  have "far_radius vd1 = far_radius vd \<and> sites_of vd \<subseteq> sites_of vd1"
    using insert_point_site_effect [OF one] by (cases r) auto
  then show ?case using Cons.IH [OF rest] e by auto
qed


subsection \<open>Cleanup and rollback of a point insertion\<close>

text \<open>
  Invariant I6 and the resource policy: between insertions every vertex is OUT,
  POINTSITE, ENDPOINT or OUTER, every face is NONINCIDENT, and the queue and the three
  vectors are empty.
\<close>

definition settled :: "VoronoiDiagram \<Rightarrow> bool" where
  "settled vd =
     ((\<forall>v. vertex_status (g vd) v \<in> {OUT, POINTSITE, ENDPOINT, OUTER}) \<and>
      (\<forall>f\<in>set (faces (g vd)). face_status (g vd) f = NONINCIDENT) \<and>
      incident_faces vd = [] \<and> modified_vertices vd = [] \<and> v0 vd = [] \<and> vertexQueue vd = [])"

text \<open>
  During an insertion: no vertex is a SEPPOINT, and every INCIDENT face is recorded in
  \<open>incident_faces\<close>.
\<close>

definition tracked :: "VoronoiDiagram \<Rightarrow> bool" where
  "tracked vd =
     ((\<forall>v. vertex_status (g vd) v \<noteq> SEPPOINT) \<and>
      (\<forall>f\<in>set (faces (g vd)). face_status (g vd) f = INCIDENT \<longrightarrow> f \<in> set (incident_faces vd)))"

lemma settled_tracked:
  assumes "settled vd"
  shows "tracked vd"
proof -
  have "vertex_status (g vd) v \<noteq> SEPPOINT" for v
  proof -
    have "vertex_status (g vd) v \<in> {OUT, POINTSITE, ENDPOINT, OUTER}"
      using assms by (simp add: settled_def)
    then show ?thesis by auto
  qed
  then show ?thesis using assms by (simp add: settled_def tracked_def)
qed

lemma reset_status_settled:
  assumes "tracked vd"
  shows "settled (reset_status vd)"
proof -
  have "vertex_status (g (reset_status vd)) v \<in> {OUT, POINTSITE, ENDPOINT, OUTER}" for v
    using assms by (cases "vertex_status (g vd) v") (auto simp: reset_status_def tracked_def)
  moreover have "face_status (g (reset_status vd)) f = NONINCIDENT"
    if "f \<in> set (faces (g (reset_status vd)))" for f
    using assms that
    by (cases "face_status (g vd) f") (auto simp: reset_status_def tracked_def)
  ultimately show ?thesis by (simp add: settled_def reset_status_def)
qed

lemma site_arrives_tracked: "tracked vd \<Longrightarrow> tracked (vd\<lparr>g := site_arrives (g vd)\<rparr>)"
  by (simp add: tracked_def site_arrives_def)

lemma augment_step_tracked:
  assumes "tracked vd"
  shows "tracked (augment_step ic s v vd)"
proof -
  have st: "vertex_status (g (augment_step ic s v vd)) u \<noteq> SEPPOINT" for u
    using assms classify_cases [of ic s "g vd" v]
    by (auto simp: augment_step_status tracked_def)
  have fs: "f \<in> set (incident_faces (augment_step ic s v vd))"
    if "f \<in> set (faces (g vd))" "face_status (g (augment_step ic s v vd)) f = INCIDENT" for f
    using assms that
    by (auto simp: augment_step_def Let_def mark_adjacent_faces_def set_status_def tracked_def
             split: if_splits)
  show ?thesis using st fs by (simp add: tracked_def)
qed

lemma augment_loop_tracked: "tracked vd \<Longrightarrow> tracked (augment_loop ic s vd)"
proof (induction ic s vd rule: augment_loop.induct)
  case (1 ic s vd)
  show ?case
  proof (cases "vq_top (vertexQueue vd)")
    case None
    then show ?thesis using 1 by (subst augment_loop.simps) simp
  next
    case (Some p)
    obtain v d where p: "p = (v, d)" by (cases p)
    have "tracked (augment_loop ic s (augment_step ic s v vd))"
      using "1.IH" [OF Some p [symmetric] augment_step_tracked [OF "1.prems"]] .
    moreover have "augment_loop ic s vd = augment_loop ic s (augment_step ic s v vd)"
      using Some p by (subst augment_loop.simps) simp
    ultimately show ?thesis by simp
  qed
qed

lemma augment_vertex_set_tracked: "tracked vd \<Longrightarrow> tracked (augment_vertex_set ic v s vd)"
  unfolding augment_vertex_set_def
  by (rule augment_loop_tracked) (simp add: tracked_def push_seed_def)

lemma place_new_vertices_tracked: "tracked vd \<Longrightarrow> tracked (place_new_vertices eps vd)"
proof (induction eps arbitrary: vd)
  case Nil
  then show ?case by simp
next
  case (Cons ep eps)
  obtain e pos where ep: "ep = (e, pos)" by (cases ep)
  let ?vd = "vd\<lparr>g := add_vertex_in_edge (fresh_vertex (g vd)) e pos (g vd),
                 modified_vertices := modified_vertices vd @ [fresh_vertex (g vd)]\<rparr>"
  have "tracked ?vd" using Cons.prems by (simp add: tracked_def add_vertex_in_edge_def)
  then have "tracked (place_new_vertices eps ?vd)" by (rule Cons.IH)
  then show ?case by (simp add: ep Let_def)
qed

lemma add_new_vertices_tracked:
  "tracked vd \<Longrightarrow> add_new_vertices vp s vd = Some vd' \<Longrightarrow> tracked vd'"
  by (auto simp: add_new_vertices_def Let_def place_new_vertices_tracked split: option.splits)

lemma add_new_face_tracked: "tracked vd \<Longrightarrow> tracked (add_new_face s vd)"
  by (simp add: tracked_def add_new_face_def Let_def)

lemma remove_vertex_set_tracked: "tracked vd \<Longrightarrow> tracked (remove_vertex_set vd)"
  by (simp add: tracked_def remove_vertex_set_def)

lemma settled_gen_count: "settled (vd\<lparr>gen_count := n\<rparr>) = settled vd"
  by (simp add: settled_def)

lemma insert_point_site_settled:
  assumes "settled vd"
  shows "settled (snd (insert_point_site orc p vd))"
proof -
  let ?s = "PointSite p"
  let ?vd1 = "vd\<lparr>g := site_arrives (g vd)\<rparr>"
  have t1: "tracked ?vd1" using assms by (intro site_arrives_tracked settled_tracked)
  show ?thesis
  proof (cases "\<not> inside_far_radius p (far_radius vd) \<or>
                PointSite p \<in> set (map (face_site (g vd)) (faces (g vd)))")
    case True
    then have "snd (insert_point_site orc p vd) = vd" by (auto simp: insert_point_site_def)
    then show ?thesis using assms by simp
  next
    case False
    show ?thesis
    proof (cases "find_seed_vertex (po_in_circle orc) (g ?vd1) (fg_closest_face orc (g ?vd1) p) ?s")
      case None
      then have "snd (insert_point_site orc p vd) = reset_status ?vd1"
        using False by (simp add: insert_point_site_def Let_def)
      then show ?thesis using reset_status_settled [OF t1] by simp
    next
      case (Some v_seed)
      let ?vd2 = "augment_vertex_set (po_in_circle orc) v_seed ?s ?vd1"
      have t2: "tracked ?vd2" using t1 by (rule augment_vertex_set_tracked)
      show ?thesis
      proof (cases "add_new_vertices (vp_position orc) ?s ?vd2")
        case None
        then have "snd (insert_point_site orc p vd) = reset_status ?vd2"
          using False Some by (simp add: insert_point_site_def Let_def)
        then show ?thesis using reset_status_settled [OF t2] by simp
      next
        case (Some vd3)
        have "tracked (remove_vertex_set (add_new_face ?s vd3))"
          using add_new_vertices_tracked [OF t2 Some]
          by (intro remove_vertex_set_tracked add_new_face_tracked)
        then have "settled (reset_status (remove_vertex_set (add_new_face ?s vd3)))"
          by (rule reset_status_settled)
        moreover have "snd (insert_point_site orc p vd) =
            (reset_status (remove_vertex_set (add_new_face ?s vd3)))\<lparr>gen_count := gen_count vd + 1\<rparr>"
          using False Some \<open>find_seed_vertex _ _ _ _ = Some v_seed\<close>
          by (simp add: insert_point_site_def Let_def)
        ultimately show ?thesis by (simp add: settled_gen_count)
      qed
    qed
  qed
qed

text \<open>
  Up to the generation of new vertices, an insertion into the diagram \<open>vd\<close> has only
  written labels: the status of vertices that were OUT, the status of faces that it
  recorded, and its queue and vectors.
\<close>

definition labels_only :: "VoronoiDiagram \<Rightarrow> VoronoiDiagram \<Rightarrow> bool" where
  "labels_only vd cur =
     (vertices (g cur) = vertices (g vd) \<and> faces (g cur) = faces (g vd) \<and>
      face_vertices (g cur) = face_vertices (g vd) \<and>
      vertex_position (g cur) = vertex_position (g vd) \<and> face_site (g cur) = face_site (g vd) \<and>
      far_radius cur = far_radius vd \<and> out_verts cur = out_verts vd \<and>
      gen_count cur = gen_count vd \<and>
      (\<forall>u. vertex_status (g cur) u = vertex_status (g vd) u \<or>
           (vertex_status (g vd) u = OUT \<and> vertex_status (g cur) u \<in> {IN, OUT, UNDECIDED})) \<and>
      (\<forall>f. face_status (g cur) f = face_status (g vd) f \<or> f \<in> set (incident_faces cur)) \<and>
      set (incident_faces cur) \<subseteq> set (faces (g vd)) \<and>
      (\<forall>p\<in>set (vertexQueue cur). vertex_status (g vd) (fst p) = OUT))"

lemma reset_status_restores:
  assumes s: "settled vd" and l: "labels_only vd cur"
  shows "reset_status cur = vd"
proof -
  have vs: "vertex_status (g (reset_status cur)) = vertex_status (g vd)"
  proof
    fix u
    have a: "vertex_status (g vd) u \<in> {OUT, POINTSITE, ENDPOINT, OUTER}"
      using s by (simp add: settled_def)
    have "vertex_status (g cur) u = vertex_status (g vd) u \<or>
          (vertex_status (g vd) u = OUT \<and> vertex_status (g cur) u \<in> {IN, OUT, UNDECIDED})"
      using l by (simp add: labels_only_def)
    then show "vertex_status (g (reset_status cur)) u = vertex_status (g vd) u"
      using a by (auto simp: reset_status_def)
  qed
  have fs: "face_status (g (reset_status cur)) = face_status (g vd)"
  proof
    fix f
    have "face_status (g cur) f = face_status (g vd) f \<or> f \<in> set (incident_faces cur)"
      using l by (simp add: labels_only_def)
    moreover have "f \<in> set (incident_faces cur) \<Longrightarrow> face_status (g vd) f = NONINCIDENT"
      using l s by (auto simp: labels_only_def settled_def)
    ultimately show "face_status (g (reset_status cur)) f = face_status (g vd) f"
      by (auto simp: reset_status_def)
  qed
  have "g (reset_status cur) = g vd"
    using vs fs l by (intro HEGraph.equality) (simp_all add: labels_only_def reset_status_def)
  then show ?thesis
    using l s by (intro VoronoiDiagram.equality) (simp_all add: labels_only_def reset_status_def settled_def)
qed

lemma enqueue_undecided_set:
  "set (enqueue_undecided ic s gr us q) =
   set q \<union> (\<lambda>u. (u, ic u s)) ` {u \<in> set us. vertex_status gr u = UNDECIDED}"
proof -
  have "set_mset (mset (enqueue_undecided ic s gr us q)) =
        set_mset (mset q + mset (map (\<lambda>u. (u, ic u s)) (filter (\<lambda>u. vertex_status gr u = UNDECIDED) us)))"
    by (simp only: enqueue_undecided_mset)
  then show ?thesis by auto
qed

lemma vq_pop_set: "q \<noteq> [] \<Longrightarrow> set (vq_pop q) \<subseteq> set q"
proof -
  assume "q \<noteq> []"
  then have "mset (vq_pop q) \<subseteq># mset q" by (simp add: vq_pop_perm)
  then show ?thesis by (metis set_mset_mono set_mset_mset)
qed

lemma augment_step_labels:
  assumes s: "settled vd" and l: "labels_only vd cur"
    and top: "vq_top (vertexQueue cur) = Some (v, d)"
  shows "labels_only vd (augment_step ic si v cur)"
proof -
  let ?n = "augment_step ic si v cur"
  have ne: "vertexQueue cur \<noteq> []" and hd: "(v, d) \<in> set (vertexQueue cur)"
    using top by (auto simp: vq_top_def split: list.splits)
  have vout: "vertex_status (g vd) v = OUT" using l hd by (auto simp: labels_only_def)
  have st: "vertex_status (g ?n) = (vertex_status (g cur))(v := classify ic si (g cur) v)"
    by (rule augment_step_status)
  have frame: "vertices (g ?n) = vertices (g cur)" "faces (g ?n) = faces (g cur)"
    "face_vertices (g ?n) = face_vertices (g cur)" "vertex_position (g ?n) = vertex_position (g cur)"
    "face_site (g ?n) = face_site (g cur)" "far_radius ?n = far_radius cur"
    "out_verts ?n = out_verts cur" "gen_count ?n = gen_count cur"
    by (simp_all add: augment_step_def Let_def mark_adjacent_faces_def set_status_def)
  have inc: "set (incident_faces cur) \<subseteq> set (incident_faces ?n)"
    "set (incident_faces ?n) \<subseteq> set (incident_faces cur) \<union> set (faces (g cur))"
    by (auto simp: augment_step_def Let_def mark_adjacent_faces_def set_status_def adjacent_faces_def)
  have fst': "face_status (g ?n) f = face_status (g cur) f \<or> f \<in> set (incident_faces ?n)" for f
    by (auto simp: augment_step_def Let_def mark_adjacent_faces_def set_status_def)
  have a: "vertex_status (g ?n) u = vertex_status (g vd) u \<or>
           (vertex_status (g vd) u = OUT \<and> vertex_status (g ?n) u \<in> {IN, OUT, UNDECIDED})" for u
  proof (cases "u = v")
    case True
    then show ?thesis using vout classify_cases [of ic si "g cur" v] by (auto simp: st)
  next
    case False
    then show ?thesis using l by (simp add: st labels_only_def)
  qed
  have b: "face_status (g ?n) f = face_status (g vd) f \<or> f \<in> set (incident_faces ?n)" for f
    using fst' [of f] l inc(1) by (auto simp: labels_only_def)
  have c: "set (incident_faces ?n) \<subseteq> set (faces (g vd))"
    using inc(2) l by (auto simp: labels_only_def)
  have q: "vertex_status (g vd) (fst p) = OUT" if "p \<in> set (vertexQueue ?n)" for p
  proof -
    have "p \<in> set (vq_pop (vertexQueue cur)) \<or>
          (\<exists>u. p = (u, ic u si) \<and> vertex_status (g ?n) u = UNDECIDED)"
      using that by (auto simp: augment_step_queue [of ic si v cur] enqueue_undecided_set)
    then show ?thesis
    proof
      assume "p \<in> set (vq_pop (vertexQueue cur))"
      then have "p \<in> set (vertexQueue cur)" using vq_pop_set [OF ne] by blast
      then show ?thesis using l by (auto simp: labels_only_def)
    next
      assume "\<exists>u. p = (u, ic u si) \<and> vertex_status (g ?n) u = UNDECIDED"
      then obtain u where u: "p = (u, ic u si)" "vertex_status (g ?n) u = UNDECIDED" by blast
      have "vertex_status (g vd) u \<in> {OUT, POINTSITE, ENDPOINT, OUTER}"
        using s by (simp add: settled_def)
      then have "vertex_status (g vd) u = OUT" using a [of u] u(2) by auto
      then show ?thesis by (simp add: u(1))
    qed
  qed
  show ?thesis
    unfolding labels_only_def using l a b c q frame by (simp add: labels_only_def)
qed

lemma augment_loop_labels:
  "settled vd \<Longrightarrow> labels_only vd cur \<Longrightarrow> labels_only vd (augment_loop ic si cur)"
proof (induction ic si cur rule: augment_loop.induct)
  case (1 ic si cur)
  show ?case
  proof (cases "vq_top (vertexQueue cur)")
    case None
    then show ?thesis using 1 by (subst augment_loop.simps) simp
  next
    case (Some p)
    obtain v d where p: "p = (v, d)" by (cases p)
    have top: "vq_top (vertexQueue cur) = Some (v, d)" using Some p by simp
    have "labels_only vd (augment_loop ic si (augment_step ic si v cur))"
      using "1.IH" [OF Some p [symmetric] "1.prems"(1) augment_step_labels [OF "1.prems" top]] .
    moreover have "augment_loop ic si cur = augment_loop ic si (augment_step ic si v cur)"
      using Some p by (subst augment_loop.simps) simp
    ultimately show ?thesis by simp
  qed
qed

lemma site_arrives_labels:
  assumes "settled vd"
  shows "labels_only vd (vd\<lparr>g := site_arrives (g vd)\<rparr>)"
  using assms by (simp add: labels_only_def site_arrives_def settled_def)

lemma find_seed_vertex_on_face:
  "find_seed_vertex ic gr f s = Some v \<Longrightarrow> v \<in> set (face_vertices gr f)"
  using seed_scan_max [of ic s "tl (face_vertices gr f)" "hd (face_vertices gr f)"]
  by (auto simp: find_seed_vertex_def split: list.splits)

lemma insert_point_site_rollback:
  assumes s: "settled vd"
    and out: "\<forall>f. \<forall>v\<in>set (face_vertices (g vd) f). vertex_status (g vd) v = OUT"
    and fail: "fst (insert_point_site orc p vd) = Inl e"
  shows "snd (insert_point_site orc p vd) = vd"
proof -
  let ?s = "PointSite p"
  let ?vd1 = "vd\<lparr>g := site_arrives (g vd)\<rparr>"
  have l1: "labels_only vd ?vd1" by (rule site_arrives_labels [OF s])
  show ?thesis
  proof (cases "\<not> inside_far_radius p (far_radius vd) \<or>
                PointSite p \<in> set (map (face_site (g vd)) (faces (g vd)))")
    case True
    then show ?thesis by (auto simp: insert_point_site_def)
  next
    case False
    show ?thesis
    proof (cases "find_seed_vertex (po_in_circle orc) (g ?vd1) (fg_closest_face orc (g ?vd1) p) ?s")
      case None
      then have "snd (insert_point_site orc p vd) = reset_status ?vd1"
        using False by (simp add: insert_point_site_def Let_def)
      then show ?thesis using reset_status_restores [OF s l1] by simp
    next
      case (Some v_seed)
      let ?ic = "po_in_circle orc"
      let ?vd2 = "augment_vertex_set ?ic v_seed ?s ?vd1"
      have "v_seed \<in> set (face_vertices (g ?vd1) (fg_closest_face orc (g ?vd1) p))"
        by (rule find_seed_vertex_on_face [OF Some])
      then have seed: "vertex_status (g vd) v_seed = OUT"
        using out by (auto simp: site_arrives_def)
      have "labels_only vd (push_seed ?ic v_seed ?s ?vd1)"
        using l1 seed s by (simp add: labels_only_def push_seed_def settled_def vq_push_empty)
      then have l2: "labels_only vd ?vd2"
        unfolding augment_vertex_set_def by (rule augment_loop_labels [OF s])
      show ?thesis
      proof (cases "add_new_vertices (vp_position orc) ?s ?vd2")
        case None
        then have "snd (insert_point_site orc p vd) = reset_status ?vd2"
          using False Some by (simp add: insert_point_site_def Let_def)
        then show ?thesis using reset_status_restores [OF s l2] by simp
      next
        case (Some vd3)
        then have "fst (insert_point_site orc p vd) = Inr (gen_count vd)"
          using False \<open>find_seed_vertex _ _ _ _ = Some v_seed\<close>
          by (simp add: insert_point_site_def Let_def)
        then show ?thesis using fail by simp
      qed
    qed
  qed
qed

section \<open>Claims on the vertex queue\<close>

text \<open>
  Claim C2, as amended. In every queue produced by \<open>push\<close> and \<open>pop\<close> calls from the
  empty queue, \<open>top\<close> delivers a queued pair whose \<open>|det|\<close> is maximal among the queued
  pairs, and \<open>pop\<close> removes exactly that pair. Nothing is promised on the order of pairs
  of equal \<open>|det|\<close>.
\<close>

theorem VertexQueue_top_maximal:
  assumes run: "vq_run ops = Some q" and ne: "q \<noteq> []"
  shows "vq_top q = Some (hd q) \<and> hd q \<in> set q \<and>
         (\<forall>r\<in>set q. \<bar>snd r\<bar> \<le> \<bar>snd (hd q)\<bar>) \<and>
         mset (vq_pop q) = mset q - {#hd q#}"
proof -
  have heap: "heap_on det_key (length q) q"
    using vq_run_from_heap [of "[]" ops q] run by (simp add: vq_run_def heap_on_def)
  obtain p q' where q: "q = p # q'" using ne by (cases q) auto
  have top: "vq_top q = Some p" by (simp add: vq_top_def q)
  have "\<bar>snd r\<bar> \<le> \<bar>snd p\<bar>" if "r \<in> set q" for r
  proof -
    from that have "\<exists>i<length q. q ! i = r" by (simp only: in_set_conv_nth)
    then obtain i where "i < length q" "q ! i = r" by blast
    then show ?thesis using heap_on_top [OF heap, of i] by (simp add: det_key_def q)
  qed
  moreover have "mset (vq_pop q) = mset q - {#p#}"
    using vq_pop_mset [OF heap ne] by (simp add: q)
  ultimately show ?thesis using top q by auto
qed

theorem VertexQueue_top_maximal_witness:
  "vq_run [Push (0, 1), Push (1, - 3), Push (2, 2), Push (3, 3), Pop] = Some [(3, 3), (0, 1), (2, 2)] \<and>
   vq_top [(3, 3), (0, 1), (2, 2)] = Some (3, 3) \<and>
   \<bar>snd (0 :: nat, 1 :: real)\<bar> \<le> \<bar>snd (3 :: nat, 3 :: real)\<bar> \<and>
   \<bar>snd (2 :: nat, 2 :: real)\<bar> \<le> \<bar>snd (3 :: nat, 3 :: real)\<bar> \<and>
   mset (vq_pop [(3, 3), (0, 1), (2, 2)]) = {#(0, 1), (2, 2)#}"
proof -
  have run: "vq_run [Push (0, 1), Push (1, - 3), Push (2, 2), Push (3, 3), Pop]
               = Some [(3, 3), (0, 1), (2, 2)]"
    by code_simp
  have ne: "[(3, 3), (0, 1), (2 :: nat, 2 :: real)] \<noteq> []" by simp
  show ?thesis using VertexQueue_top_maximal [OF run ne] run by simp
qed

text \<open>
  Claim C2 as stated fails on the order of equal keys: after four pushes of pairs with
  \<open>|det| = 1\<close> for the vertices 0, 1, 2, 3 and one pop (which delivers vertex 0), the
  queue delivers vertex 2, although vertex 1 was inserted before it and is still queued;
  the queue of the specification delivers vertex 1.
\<close>

theorem VertexQueue_stable_counterexample:
  "Option.bind (vq_run [Push (0, 1), Push (1, 1), Push (2, 1), Push (3, 1), Pop]) vq_top
     = Some (2, 1) \<and>
   Option.bind (stable_run [Push (0, 1), Push (1, 1), Push (2, 1), Push (3, 1), Pop]) stable_top
     = Some (1, 1)"
  by code_simp

section \<open>Claims on the constructors\<close>

text \<open>
  Claim C10. On a diagram built by the two-argument constructor, \<open>get_far_radius\<close>
  returns the \<open>far\<close> argument. On a diagram built by the zero-argument constructor it
  returns the stale content of the storage, whatever that is: the constructor has no
  part in the value.
\<close>

theorem get_far_radius_constructors:
  "get_far_radius (VoronoiDiagram_far far n_bins) = far \<and>
   get_far_radius (VoronoiDiagram_default mem) = stale_far_radius mem"
  by (simp add: get_far_radius_def VoronoiDiagram_far_def VoronoiDiagram_default_def)

section \<open>Claims on the classification\<close>





section \<open>Claims on the insertion of point sites\<close>

text \<open>
  Claim C5. Whatever the oracles, the starting diagram and the sequence of
  \<open>insert_point_site\<close> calls: if the call for the point \<open>ps ! i\<close> returned a handle,
  then a further call for the same point, after the whole sequence, fails with
  \<open>Duplicate\<close> and returns the diagram unchanged.
\<close>

theorem insert_point_site_twice:
  assumes run: "insert_points orc ps vd = (rs, vd')"
    and i: "i < length ps" and ok: "rs ! i = Inr h"
  shows "insert_point_site orc (ps ! i) vd' = (Inl Duplicate, vd')"
  using run i ok
proof (induction ps arbitrary: vd rs i vd')
  case Nil
  then show ?case by simp
next
  case (Cons p ps)
  obtain r vd1 where one: "insert_point_site orc p vd = (r, vd1)"
    by (cases "insert_point_site orc p vd")
  obtain rs' vd2 where rest: "insert_points orc ps vd1 = (rs', vd2)"
    by (cases "insert_points orc ps vd1")
  have e: "rs = r # rs'" "vd' = vd2" using Cons.prems(1) one rest by simp_all
  show ?case
  proof (cases i)
    case 0
    then have r: "r = Inr h" using Cons.prems(3) e by simp
    have "PointSite p \<in> sites_of vd1" "inside_far_radius p (far_radius vd)"
      "far_radius vd1 = far_radius vd"
      using insert_point_site_effect [OF one] r by simp_all
    moreover have "far_radius vd2 = far_radius vd1" "sites_of vd1 \<subseteq> sites_of vd2"
      using insert_points_keep [OF rest] by simp_all
    ultimately have "insert_point_site orc p vd2 = (Inl Duplicate, vd2)"
      by (intro insert_point_site_duplicate) auto
    then show ?thesis using 0 e by simp
  next
    case (Suc j)
    then have "j < length ps" "rs' ! j = Inr h" using Cons.prems e by simp_all
    then show ?thesis using Cons.IH [OF rest] Suc e by simp
  qed
qed

theorem insert_point_site_twice_witness:
  "fst (insert_points centre_oracle [(0, 0), (2, 0), (0, 1 / 2)] three_sites)
     = [Inr 3, Inl OutOfBounds, Inr 4] \<and>
   insert_point_site centre_oracle (0, 0)
       (snd (insert_points centre_oracle [(0, 0), (2, 0), (0, 1 / 2)] three_sites))
     = (Inl Duplicate, snd (insert_points centre_oracle [(0, 0), (2, 0), (0, 1 / 2)] three_sites))"
proof -
  have rs: "fst (insert_points centre_oracle [(0, 0), (2, 0), (0, 1 / 2)] three_sites)
              = [Inr 3, Inl OutOfBounds, Inr 4]"
    by code_simp
  have run: "insert_points centre_oracle [(0, 0), (2, 0), (0, 1 / 2)] three_sites
      = ([Inr 3, Inl OutOfBounds, Inr 4],
         snd (insert_points centre_oracle [(0, 0), (2, 0), (0, 1 / 2)] three_sites))"
    using rs by (metis prod.collapse)
  show ?thesis
    using insert_point_site_twice [OF run, of 0 3] rs by simp
qed



end
